theory Spec2Isabelle
  imports
    Main
    "HOL-Library.FSet"
    "HOL-Library.Product_Lexorder"
    "HOL-Library.Multiset"
begin

section \<open>Geometry: a raster model of the planar overlay primitives\<close>

text \<open>
  The pipeline calls shapely for every geometric primitive. Here a planar region is a
  finite set of closed grid cells, 0.01 degree wide and 0.009 degree high (0.00009 square
  degrees each), and the overlay primitives are the exact set operations on such
  regions. One cell is below the verification threshold 0.0001 and two are above it; five
  cells are below the cut threshold 0.0005 and six are above it. The geometry types are
  those the scripts test with \<open>isinstance\<close>.

  A polygon carries its cells and a validity flag. A ring that crosses itself cannot be
  drawn on a raster: \<open>Ring\<close> stands for such a polygon, with the cells its repair covers
  and the area its crossed ring reports (the lobes of a bow-tie cancel to 0).
\<close>

type_synonym cell = "int \<times> int"
type_synonym region = "cell fset"

datatype polygon =
    Poly (pcells: region) (pvalid: bool)
  | Ring (pcells: region) rat
  where "pvalid (Ring r a) = False"

datatype geometry =
    Polygon polygon
  | MultiPolygon "polygon list"
  | GeometryCollection "geometry list"
  | MultiLineString
  | LineString
  | Point rat rat

definition cell_area :: rat where
  "cell_area = 9 / 100000"

definition regions_union :: "region list \<Rightarrow> region" where
  "regions_union rs = fold (|\<union>|) rs {||}"

text \<open>The cells covered by a geometry; lines and points cover none.\<close>

fun region :: "geometry \<Rightarrow> region" where
  "region (Polygon p) = pcells p"
| "region (MultiPolygon ps) = regions_union (map pcells ps)"
| "region (GeometryCollection gs) = regions_union (map region gs)"
| "region MultiLineString = {||}"
| "region LineString = {||}"
| "region (Point x y) = {||}"

definition parea :: "polygon \<Rightarrow> rat" where
  "parea p = (case p of Poly r v \<Rightarrow> cell_area * of_nat (fcard r) | Ring r a \<Rightarrow> a)"

text \<open>\<open>geom.area\<close>: a multi-part geometry sums the areas of its parts.\<close>

fun area :: "geometry \<Rightarrow> rat" where
  "area (Polygon p) = parea p"
| "area (MultiPolygon ps) = sum_list (map parea ps)"
| "area (GeometryCollection gs) = sum_list (map area gs)"
| "area MultiLineString = 0"
| "area LineString = 0"
| "area (Point x y) = 0"

fun is_empty :: "geometry \<Rightarrow> bool" where
  "is_empty (Polygon p) = (pcells p = {||})"
| "is_empty (MultiPolygon ps) = list_all (\<lambda>p. pcells p = {||}) ps"
| "is_empty (GeometryCollection gs) = list_all is_empty gs"
| "is_empty MultiLineString = False"
| "is_empty LineString = False"
| "is_empty (Point x y) = False"

fun parts_disjoint :: "polygon list \<Rightarrow> bool" where
  "parts_disjoint [] = True"
| "parts_disjoint (p # ps) =
     (list_all (\<lambda>q. pcells p |\<inter>| pcells q = {||}) ps \<and> parts_disjoint ps)"

fun is_valid :: "geometry \<Rightarrow> bool" where
  "is_valid (Polygon p) = pvalid p"
| "is_valid (MultiPolygon ps) = (list_all pvalid ps \<and> parts_disjoint ps)"
| "is_valid (GeometryCollection gs) = list_all is_valid gs"
| "is_valid MultiLineString = True"
| "is_valid LineString = True"
| "is_valid (Point x y) = True"

text \<open>
  Two cells belong to the same polygon part when they share an edge. A region is typed
  the way GEOS types an overlay result: the empty polygon, one polygon, or a
  multipolygon with one part per connected component.
\<close>

definition adjacent :: "cell \<Rightarrow> cell \<Rightarrow> bool" where
  "adjacent c d \<longleftrightarrow>
     (fst c = fst d \<and> \<bar>snd c - snd d\<bar> = 1) \<or> (snd c = snd d \<and> \<bar>fst c - fst d\<bar> = 1)"

definition grow :: "region \<Rightarrow> region \<Rightarrow> region" where
  "grow r s = s |\<union>| ffilter (\<lambda>c. fBex s (adjacent c)) r"

definition component_of :: "region \<Rightarrow> cell \<Rightarrow> region" where
  "component_of r c = ((grow r) ^^ fcard r) {|c|}"

function components :: "region \<Rightarrow> region list" where
  "components r =
     (if r = {||} then []
      else (let k = component_of r (fMin r) in k # components (r |-| k)))"
  by pat_completeness auto
termination
proof (relation "measure fcard")
  show "wf (measure fcard)" by simp
next
  fix r :: region and k
  assume ne: "r \<noteq> {||}" and k: "k = component_of r (fMin r)"
  have incr: "s |\<subseteq>| ((grow r) ^^ n) s" for s n
  proof (induction n)
    case 0
    show ?case by simp
  next
    case (Suc n)
    have "((grow r) ^^ n) s |\<subseteq>| grow r (((grow r) ^^ n) s)"
      by (auto simp: grow_def)
    with Suc show ?case by auto
  qed
  have "fMin r |\<in>| r" using ne by (simp add: fMin_in)
  moreover have "fMin r |\<in>| k"
    unfolding k component_of_def using incr[of "{|fMin r|}" "fcard r"] by auto
  ultimately have "r |-| k |\<subset>| r" by auto
  then show "(r |-| k, r) \<in> measure fcard" by (simp add: pfsubset_fcard_mono)
qed

declare components.simps [simp del]

definition assemble :: "region \<Rightarrow> geometry" where
  "assemble r =
     (case components r of
        [] \<Rightarrow> Polygon (Poly {||} True)
      | [k] \<Rightarrow> Polygon (Poly k True)
      | ks \<Rightarrow> MultiPolygon (map (\<lambda>k. Poly k True) ks))"

text \<open>
  \<open>a.intersects(b)\<close>: the closed regions share a point, so cells that coincide or meet
  at an edge or a corner intersect. \<open>a.touches(b)\<close>: they share a point but no interior.
\<close>

definition intersects :: "geometry \<Rightarrow> geometry \<Rightarrow> bool" where
  "intersects a b \<longleftrightarrow>
     fBex (region a) (\<lambda>c. fBex (region b)
       (\<lambda>d. \<bar>fst c - fst d\<bar> \<le> 1 \<and> \<bar>snd c - snd d\<bar> \<le> 1))"

definition touches :: "geometry \<Rightarrow> geometry \<Rightarrow> bool" where
  "touches a b \<longleftrightarrow> intersects a b \<and> region a |\<inter>| region b = {||}"

text \<open>The areal part of \<open>a.intersection(b)\<close>; a shared edge or corner has no area.\<close>

definition intersection :: "geometry \<Rightarrow> geometry \<Rightarrow> geometry" where
  "intersection a b = assemble (region a |\<inter>| region b)"

definition difference :: "geometry \<Rightarrow> geometry \<Rightarrow> geometry" where
  "difference a b = assemble (region a |-| region b)"

definition unary_union :: "geometry list \<Rightarrow> geometry" where
  "unary_union gs = assemble (regions_union (map region gs))"

text \<open>
  \<open>geom.centroid\<close> of an areal geometry, in degrees: the mean of the cell centres. It is
  only taken of regions that are not empty.
\<close>

definition centroid :: "geometry \<Rightarrow> geometry" where
  "centroid g =
     (let r = region g; n = of_nat (fcard r) in
      Point ((of_int (sum fst (fset r)) / n + 1 / 2) * (1 / 100))
            ((of_int (sum snd (fset r)) / n + 1 / 2) * (9 / 1000)))"

text \<open>
  \<open>geom.bounds\<close> in cell-corner units (minx, miny, maxx, maxy), and whether two such boxes
  share a point.
\<close>

definition bounds :: "geometry \<Rightarrow> int \<times> int \<times> int \<times> int" where
  "bounds g =
     (let r = region g in
      (fMin (fst |`| r), fMin (snd |`| r), fMax (fst |`| r) + 1, fMax (snd |`| r) + 1))"

definition boxes_intersect :: "int \<times> int \<times> int \<times> int \<Rightarrow> int \<times> int \<times> int \<times> int \<Rightarrow> bool" where
  "boxes_intersect a b =
     (case a of (ax0, ay0, ax1, ay1) \<Rightarrow> case b of (bx0, by0, bx1, by1) \<Rightarrow>
        \<not> (ax1 < bx0 \<or> bx1 < ax0 \<or> ay1 < by0 \<or> by1 < ay0))"

text \<open>
  \<open>make_valid\<close> rebuilds the geometry over the cells it covers. The result is valid and
  has the area of those cells, which can be more than a crossed ring reported.
\<close>

definition make_valid :: "geometry \<Rightarrow> geometry" where
  "make_valid g = assemble (region g)"

section \<open>Features and feature sets\<close>

datatype val = Str string | Num int | Null

text \<open>
  A row of a GeoDataFrame: its attribute values by column name and its geometry, which a
  shapefile may leave null. A column a row does not list reads as null.
\<close>

record feature =
  props :: "(string \<times> val) list"
  geom :: "geometry option"

record gdf =
  columns :: "string list"
  feats :: "feature list"

definition attr :: "feature \<Rightarrow> string \<Rightarrow> val" where
  "attr f k = (case map_of (props f) k of Some v \<Rightarrow> v | None \<Rightarrow> Null)"

datatype error =
    AttributeError
  | KeyError
  | ValueError
  | TypeError
  | ReadError
  | RecursionError
  | SystemExit string

text \<open>\<open>row[col] = v\<close>: the value of an existing column is replaced, a new column is appended.\<close>

definition set_attr :: "string \<Rightarrow> val \<Rightarrow> feature \<Rightarrow> feature" where
  "set_attr k v f =
     f\<lparr>props := (if k \<in> set (map fst (props f))
                    then map (\<lambda>(k', v'). if k' = k then (k', v) else (k', v')) (props f)
                    else props f @ [(k, v)])\<rparr>"

text \<open>The decimal digits of a number, as \<open>str\<close> and the format strings print it.\<close>

fun show_nat :: "nat \<Rightarrow> string" where
  "show_nat n =
     (if n < 10 then [char_of (48 + n)]
      else show_nat (n div 10) @ [char_of (48 + n mod 10)])"

declare show_nat.simps [simp del]

text \<open>\<open>gdf[mask]\<close>: the rows a predicate selects, in frame order.\<close>

definition rows_where :: "(feature \<Rightarrow> bool) \<Rightarrow> gdf \<Rightarrow> gdf" where
  "rows_where P g = g\<lparr>feats := filter P (feats g)\<rparr>"

text \<open>
  \<open>pd.concat(parts)\<close>: the rows of the parts one after the other, under the columns of
  all parts in the order they first appear.
\<close>

definition concat_frames :: "gdf list \<Rightarrow> gdf" where
  "concat_frames parts =
     \<lparr>columns = rev (remdups (rev (concat (map columns parts)))),
      feats = concat (map feats parts)\<rparr>"

text \<open>
  The file system: what each path holds, a shapefile that loads as a frame or something
  \<open>gpd.read_file\<close> fails on. Directories are not modelled, and a write is taken to
  succeed, so every failure of a stage comes before its first write.
\<close>

datatype entry = Shapefile gdf | Unreadable

type_synonym filesystem = "(string \<times> entry) list"

definition path_exists :: "filesystem \<Rightarrow> string \<Rightarrow> bool" where
  "path_exists fs path \<longleftrightarrow> map_of fs path \<noteq> None"

definition to_file :: "gdf \<Rightarrow> string \<Rightarrow> filesystem \<Rightarrow> filesystem" where
  "to_file g path fs = (path, Shapefile g) # filter (\<lambda>(p, e). p \<noteq> path) fs"

section \<open>Stage 02: cutting High Intertidal Coral Reef out of lower-priority reefs\<close>

definition cut_threshold :: rat where
  "cut_threshold = 5 / 10000"

text \<open>
  The inner loop of \<open>cut_out_overlaps\<close> for one target: the geometry cut so far and the
  running overlap count, over the overlay rows in frame order. An overlay row with a null
  geometry intersects nothing.
\<close>

fun cut_loop :: "geometry \<Rightarrow> feature list \<Rightarrow> nat \<Rightarrow> geometry \<times> nat" where
  "cut_loop modified_geom [] overlap_count = (modified_geom, overlap_count)"
| "cut_loop modified_geom (overlay_feature # rest) overlap_count =
     (case geom overlay_feature of
        None \<Rightarrow> cut_loop modified_geom rest overlap_count
      | Some og \<Rightarrow>
          if intersects modified_geom og then
            (if area (intersection modified_geom og) > cut_threshold
             then cut_loop (difference modified_geom og) rest (Suc overlap_count)
             else cut_loop modified_geom rest overlap_count)
          else cut_loop modified_geom rest overlap_count)"

text \<open>
  The outer loop. A target row with a null geometry fails at its first
  \<open>modified_geom.intersects\<close> call (the overlay frame is not empty here); a target cut
  down to nothing is left out of the result.
\<close>

fun cut_targets :: "feature list \<Rightarrow> feature list \<Rightarrow> nat \<Rightarrow> error + (feature list \<times> nat)" where
  "cut_targets [] overlay overlap_count = Inr ([], overlap_count)"
| "cut_targets (target_feature # rest) overlay overlap_count =
     (case geom target_feature of
        None \<Rightarrow> Inl AttributeError
      | Some g \<Rightarrow>
          (case cut_loop g overlay overlap_count of
             (modified_geom, n) \<Rightarrow>
               (case cut_targets rest overlay n of
                  Inl e \<Rightarrow> Inl e
                | Inr (modified_features, m) \<Rightarrow>
                    if is_empty modified_geom then Inr (modified_features, m)
                    else Inr (target_feature\<lparr>geom := Some modified_geom\<rparr> # modified_features, m))))"

definition cut_out_overlaps :: "gdf \<Rightarrow> gdf \<Rightarrow> error + (gdf \<times> nat)" where
  "cut_out_overlaps target_gdf overlay_gdf =
     (if length (feats target_gdf) = 0 \<or> length (feats overlay_gdf) = 0
      then Inr (target_gdf, 0)
      else
        (case cut_targets (feats target_gdf) (feats overlay_gdf) 0 of
           Inl e \<Rightarrow> Inl e
         | Inr (modified_features, overlap_count) \<Rightarrow>
             if modified_features = []
             then Inr (\<lparr>columns = [], feats = []\<rparr>, overlap_count)
             else Inr (\<lparr>columns = columns target_gdf, feats = modified_features\<rparr>,
                       overlap_count)))"

text \<open>No two overlay rows cover a common cell.\<close>

fun overlays_disjoint :: "feature list \<Rightarrow> bool" where
  "overlays_disjoint [] = True"
| "overlays_disjoint (f # fs) =
     (list_all (\<lambda>h. case (geom f, geom h) of
                       (Some a, Some b) \<Rightarrow> region a |\<inter>| region b = {||}
                     | _ \<Rightarrow> True) fs
      \<and> overlays_disjoint fs)"

text \<open>Notions used to state and prove the properties of the cut.\<close>

definition significant :: "geometry \<Rightarrow> feature \<Rightarrow> bool" where
  "significant g ov \<longleftrightarrow> (case geom ov of None \<Rightarrow> False | Some og \<Rightarrow> area (intersection g og) > cut_threshold)"

definition fregion :: "feature \<Rightarrow> region" where
  "fregion ov = (case geom ov of None \<Rightarrow> {||} | Some og \<Rightarrow> region og)"

definition fdisjoint :: "feature \<Rightarrow> feature \<Rightarrow> bool" where
  "fdisjoint f h \<longleftrightarrow> fregion f |\<inter>| fregion h = {||}"

definition cut_union :: "geometry \<Rightarrow> feature list \<Rightarrow> region" where
  "cut_union g ovs = regions_union (map fregion (filter (significant g) ovs))"

definition spread :: "feature list \<Rightarrow> bool" where
  "spread fs \<longleftrightarrow>
     (\<forall>f\<in>set fs. \<forall>h\<in>set fs. f \<noteq> h \<longrightarrow> fdisjoint f h) \<and>
     (\<forall>f\<in>set fs. 2 \<le> count_list fs f \<longrightarrow> fregion f = {||})"

text \<open>
  The verification scan \<open>identify_overlaps\<close>. The spatial index holds the rows with a
  geometry that is not empty and answers a bounding-box query with their positions, taken
  here in ascending order; \<open>use_sindex\<close> says whether the index could be built. After
  \<open>pd.concat(..., ignore_index=True)\<close> the label of a row is its position.
\<close>

definition verify_threshold :: rat where
  "verify_threshold = 1 / 10000"

record overlap =
  feature_i_id :: nat
  feature_j_id :: nat
  type_i :: val
  type_j :: val
  overlap_geom :: geometry

definition sindex_intersection :: "gdf \<Rightarrow> int \<times> int \<times> int \<times> int \<Rightarrow> nat list" where
  "sindex_intersection g b =
     filter (\<lambda>j. case geom (feats g ! j) of
                    None \<Rightarrow> False
                  | Some gj \<Rightarrow> \<not> is_empty gj \<and> boxes_intersect (bounds gj) b)
       [0..<length (feats g)]"

definition possible_matches :: "bool \<Rightarrow> gdf \<Rightarrow> geometry \<Rightarrow> nat list" where
  "possible_matches use_sindex g geom_i =
     (if use_sindex then sindex_intersection g (bounds geom_i) else [0..<length (feats g)])"

text \<open>The body of the inner loop: the record appended for the pair (i, j), if any.\<close>

definition check_pair :: "gdf \<Rightarrow> nat \<Rightarrow> feature \<Rightarrow> geometry \<Rightarrow> nat \<Rightarrow> overlap list" where
  "check_pair g i feature_i geom_i j =
     (if i \<ge> j then []
      else
        (let feature_j = feats g ! j in
         case geom feature_j of
           None \<Rightarrow> []
         | Some geom_j \<Rightarrow>
             if is_empty geom_j then []
             else if intersects geom_i geom_j \<and> \<not> touches geom_i geom_j then
               (let inter = intersection geom_i geom_j in
                if area inter > verify_threshold
                then [\<lparr>feature_i_id = i, feature_j_id = j,
                       type_i = attr feature_i ''RB_Type_L3'',
                       type_j = attr feature_j ''RB_Type_L3'',
                       overlap_geom = inter\<rparr>]
                else [])
             else []))"

definition identify_overlaps :: "bool \<Rightarrow> gdf \<Rightarrow> overlap list" where
  "identify_overlaps use_sindex g =
     concat (map (\<lambda>i.
        (let feature_i = feats g ! i in
         case geom feature_i of
           None \<Rightarrow> []
         | Some geom_i \<Rightarrow>
             if is_empty geom_i then []
             else concat (map (check_pair g i feature_i geom_i)
                            (possible_matches use_sindex g geom_i))))
       [0..<length (feats g)])"

text \<open>One row of the overlap-point shapefile: the centroid of the overlap and both sources.\<close>

definition point_record :: "nat \<Rightarrow> overlap \<Rightarrow> feature" where
  "point_record i ov =
     \<lparr>props = [(''ID'', Num (int i)),
               (''Feature_1'', Num (int (feature_i_id ov))),
               (''Type_1'', type_i ov),
               (''Feature_2'', Num (int (feature_j_id ov))),
               (''Type_2'', type_j ov)],
      geom = Some (centroid (overlap_geom ov))\<rparr>"

definition input_shapefile :: string where
  "input_shapefile = ''data/v0-3_qc-1/in/Reef Boundaries Review.shp''"

definition output_shapefile :: string where
  "output_shapefile = ''working/02/Reef_Boundaries_Clean.shp''"

definition overlap_points_shapefile :: string where
  "overlap_points_shapefile = ''working/02/Overlap_Points.shp''"

definition has_type :: "string \<Rightarrow> feature \<Rightarrow> bool" where
  "has_type t f \<longleftrightarrow> attr f ''RB_Type_L3'' = Str t"

definition is_other :: "feature \<Rightarrow> bool" where
  "is_other f \<longleftrightarrow>
     \<not> (has_type ''High Intertidal Coral Reef'' f \<or> has_type ''Platform Coral Reef'' f \<or>
        has_type ''Fringing Coral Reef'' f)"

text \<open>
  The frame \<open>result_gdf\<close> that \<open>main\<close> builds from the loaded frame: the cut platform
  and fringing reefs, then the intertidal reefs and the other rows as loaded. Parts with
  no rows are left out, and the run stops when none is left.
\<close>

definition combine_cut :: "gdf \<Rightarrow> error + gdf" where
  "combine_cut g =
     (let high_intertidal = rows_where (has_type ''High Intertidal Coral Reef'') g;
          platform_coral = rows_where (has_type ''Platform Coral Reef'') g;
          fringing_coral = rows_where (has_type ''Fringing Coral Reef'') g;
          other_features = rows_where is_other g
      in case cut_out_overlaps platform_coral high_intertidal of
           Inl e \<Rightarrow> Inl e
         | Inr (modified_platform, platform_overlaps) \<Rightarrow>
             (case cut_out_overlaps fringing_coral high_intertidal of
                Inl e \<Rightarrow> Inl e
              | Inr (modified_fringing, fringing_overlaps) \<Rightarrow>
                  (let parts = filter (\<lambda>part. length (feats part) > 0)
                         [modified_platform, modified_fringing, high_intertidal, other_features]
                   in if parts = [] then Inl (SystemExit ''1'')
                      else Inr (concat_frames parts))))"

text \<open>
  \<open>main\<close> of stage 02 on the file system: load, check the type column, cut and combine,
  scan for remaining overlaps, write the overlap points when there are any, and write the
  cleaned shapefile to its fixed path.
\<close>

definition main02 :: "bool \<Rightarrow> filesystem \<Rightarrow> error + filesystem" where
  "main02 use_sindex fs =
     (case map_of fs input_shapefile of
        None \<Rightarrow> Inl (SystemExit ''1'')
      | Some Unreadable \<Rightarrow> Inl (SystemExit ''1'')
      | Some (Shapefile g) \<Rightarrow>
          if ''RB_Type_L3'' \<notin> set (columns g) then Inl (SystemExit ''1'')
          else
            (case combine_cut g of
               Inl e \<Rightarrow> Inl e
             | Inr result_gdf \<Rightarrow>
                 (let remaining_overlaps = identify_overlaps use_sindex result_gdf;
                      point_records =
                        map (\<lambda>(i, ov). point_record i ov)
                          (zip [0..<length remaining_overlaps] remaining_overlaps);
                      fs1 = (if remaining_overlaps \<noteq> [] \<and> point_records \<noteq> []
                             then to_file \<lparr>columns = [''ID'', ''Feature_1'', ''Type_1'',
                                                      ''Feature_2'', ''Type_2''],
                                           feats = point_records\<rparr>
                                    overlap_points_shapefile fs
                             else fs)
                  in Inr (to_file result_gdf output_shapefile fs1))))"

section \<open>Stage 03: the v0-3 class cross-walk\<close>

definition IN_PATH :: string where
  "IN_PATH = ''working/02/Reef_Boundaries_Clean.shp''"

definition OUT_PATH :: string where
  "OUT_PATH = ''working/03/NW-Aus-Features_v0-3-cross-walk.shp''"

definition load_data :: "filesystem \<Rightarrow> string \<Rightarrow> error + gdf" where
  "load_data fs path =
     (if \<not> path_exists fs path then Inl (SystemExit (''Input shapefile not found: '' @ path))
      else (case map_of fs path of
              Some (Shapefile g) \<Rightarrow> Inr g
            | _ \<Rightarrow> Inl ReadError))"

text \<open>
  \<open>main\<close> of stage 03. The first statement refuses to run over an existing output.
  The attribute cross-walk between loading and saving (dropping empty geometries,
  reprojecting, renaming and recoding columns through the mapping table) does not touch
  the file system; it is the parameter \<open>cross_walk\<close>.
\<close>

definition main03 :: "(gdf \<Rightarrow> error + gdf) \<Rightarrow> filesystem \<Rightarrow> error + filesystem" where
  "main03 cross_walk fs =
     (if path_exists fs OUT_PATH
      then Inl (SystemExit (''Output file already exists: '' @ OUT_PATH @
                  [CHR 0x0A] @ ''Please move or delete it before running this script.''))
      else (case load_data fs IN_PATH of
              Inl e \<Rightarrow> Inl e
            | Inr g \<Rightarrow>
                (case cross_walk g of
                   Inl e \<Rightarrow> Inl e
                 | Inr out \<Rightarrow> Inr (to_file out OUT_PATH fs))))"

section \<open>Stage 04: merging the semi-automatic rocky reefs into the feature layer\<close>

text \<open>
  The defaults stage 04 gives to new intertidal rocky reefs (its own \<open>default_vals\<close>).
\<close>

definition default_vals04 :: "(string \<times> val) list" where
  "default_vals04 =
     [(''EdgeSrc'', Str ''Semi-auto rocky reef''),
      (''Notes'', Null),
      (''EdgeAcc_m'', Num 40),
      (''RB_Type_L3'', Str ''Fringing Rocky Reef''),
      (''Feat_L3'', Str ''Rocky Reef''),
      (''GeoAttach'', Str ''Fringing''),
      (''Relief'', Str ''Low''),
      (''FlowInflu'', Str ''None''),
      (''SO_L2'', Str ''Terrigenous''),
      (''Paleo'', Str ''No''),
      (''FeatConf'', Str ''Medium''),
      (''TypeConf'', Str ''Medium''),
      (''DepthCat'', Str ''Very Shallow''),
      (''DepthCatSr'', Str ''S2 Infrared'')]"

text \<open>
  Section 1.5 of the script: a missing \<open>DebugID\<close> column is created as \<open>NW_i\<close>, and every
  row gets the tracking column \<open>debug_status\<close>.
\<close>

definition add_column :: "string \<Rightarrow> (nat \<Rightarrow> val) \<Rightarrow> gdf \<Rightarrow> gdf" where
  "add_column col value_at g =
     \<lparr>columns = (if col \<in> set (columns g) then columns g else columns g @ [col]),
      feats = map (\<lambda>(i, f). set_attr col (value_at i) f) (zip [0..<length (feats g)] (feats g))\<rparr>"

definition track_nw :: "gdf \<Rightarrow> gdf" where
  "track_nw gdf_nw =
     add_column ''debug_status'' (\<lambda>i. Str ''original'')
       (if ''DebugID'' \<notin> set (columns gdf_nw)
        then add_column ''DebugID'' (\<lambda>i. Str (''NW_'' @ show_nat i)) gdf_nw
        else gdf_nw)"

definition nw_ids_original :: "gdf \<Rightarrow> val list" where
  "nw_ids_original gdf_nw = remdups (map (\<lambda>f. attr f ''DebugID'') (feats (track_nw gdf_nw)))"

text \<open>
  Section 2: the AIMS frame gets every column of the feature layer and of the defaults
  as null, and the defaults that are not \<open>None\<close> fill its null cells.
\<close>

definition fill_default :: "(string \<times> val) \<Rightarrow> feature \<Rightarrow> feature" where
  "fill_default kv f =
     (case kv of (k, v) \<Rightarrow>
        if v \<noteq> Null \<and> attr f k = Null then set_attr k v f
        else if k \<in> set (map fst (props f)) then f else set_attr k Null f)"

definition prepare_aims :: "gdf \<Rightarrow> gdf \<Rightarrow> gdf" where
  "prepare_aims tracked_nw gdf_aims =
     (let missing = filter (\<lambda>col. col \<notin> set (columns gdf_aims) \<and> col \<noteq> ''geometry'')
                      (columns tracked_nw);
          with_nw = fold (\<lambda>col g. add_column col (\<lambda>i. Null) g) missing gdf_aims;
          with_defaults = fold (\<lambda>col g. if col \<notin> set (columns g)
                                          then add_column col (\<lambda>i. Null) g else g)
                            (map fst default_vals04) with_nw
      in with_defaults\<lparr>feats := map (\<lambda>f. fold fill_default default_vals04 f)
                                    (feats with_defaults)\<rparr>)"

text \<open>
  Section 3: the positions of the rocky reefs in the feature layer (\<open>original_indices\<close>,
  which is also \<open>idx_mapping\<close>) and their rows (\<open>gdf_nw_rock\<close>).
\<close>

definition original_indices :: "gdf \<Rightarrow> nat list" where
  "original_indices tracked_nw =
     filter (\<lambda>i. attr (feats tracked_nw ! i) ''Feat_L3'' = Str ''Rocky Reef'')
       [0..<length (feats tracked_nw)]"

definition gdf_nw_rock :: "gdf \<Rightarrow> gdf" where
  "gdf_nw_rock tracked_nw =
     tracked_nw\<lparr>feats := map (\<lambda>i. feats tracked_nw ! i) (original_indices tracked_nw)\<rparr>"

text \<open>
  Section 4. The dictionaries keep their keys in insertion order, as Python's do; a
  neighbour set is kept as the list of its members in insertion order (Python fixes no
  order for it). \<open>setdefault(k, set()).add(v)\<close> and \<open>setdefault(k, []).append(x)\<close>:
\<close>

type_synonym graph = "(nat \<times> nat list) list"

definition add_edge :: "nat \<Rightarrow> nat \<Rightarrow> graph \<Rightarrow> graph" where
  "add_edge k v conns =
     (if k \<in> set (map fst conns)
      then map (\<lambda>(k', vs). if k' = k then (k', if v \<in> set vs then vs else vs @ [v])
                            else (k', vs)) conns
      else conns @ [(k, [v])])"

definition add_group :: "nat \<Rightarrow> geometry \<Rightarrow> (nat \<times> geometry list) list \<Rightarrow> (nat \<times> geometry list) list" where
  "add_group k x groups =
     (if k \<in> set (map fst groups)
      then map (\<lambda>(k', xs). if k' = k then (k', xs @ [x]) else (k', xs)) groups
      else groups @ [(k, [x])])"

definition connect_all :: "nat list \<Rightarrow> graph \<Rightarrow> graph" where
  "connect_all touched_nws conns =
     fold (\<lambda>(idx1, idx2) c. if idx1 \<noteq> idx2 then add_edge idx2 idx1 (add_edge idx1 idx2 c) else c)
       (List.product touched_nws touched_nws) conns"

record tagging =
  touch_idxs :: "nat list"
  nw_groups :: "(nat \<times> geometry list) list"
  nw_connections :: graph

text \<open>
  The loop over the candidate rocky reefs of one AIMS polygon: a candidate the polygon
  touches or intersects receives the polygon in its group, and is connected with every
  rocky reef this polygon has already reached.
\<close>

fun tag_candidates ::
  "feature list \<Rightarrow> geometry \<Rightarrow> nat list \<Rightarrow> nat list \<Rightarrow>
   (nat \<times> geometry list) list \<times> graph \<Rightarrow> nat list \<times> (nat \<times> geometry list) list \<times> graph" where
  "tag_candidates rock g [] touched_nws (groups, conns) = (touched_nws, groups, conns)"
| "tag_candidates rock g (nw_idx # possibles) touched_nws (groups, conns) =
     (case geom (rock ! nw_idx) of
        None \<Rightarrow> tag_candidates rock g possibles touched_nws (groups, conns)
      | Some rg \<Rightarrow>
          if touches g rg \<or> intersects g rg then
            (let groups' = add_group nw_idx g groups;
                 touched' = touched_nws @ [nw_idx];
                 conns' = (if length touched' > 1 then connect_all touched' conns else conns)
             in tag_candidates rock g possibles touched' (groups', conns'))
          else tag_candidates rock g possibles touched_nws (groups, conns))"

text \<open>
  The loop over the AIMS rows. A row with a null geometry fails at \<open>row.geometry.bounds\<close>;
  an empty geometry has no bounds to query and reaches nothing. The debug statuses written
  to the absorbed AIMS rows and \<open>merge_tracking\<close> are read by nothing and are left out.
\<close>

fun tag_aims :: "gdf \<Rightarrow> (nat \<times> feature) list \<Rightarrow> tagging \<Rightarrow> error + tagging" where
  "tag_aims rock [] t = Inr t"
| "tag_aims rock ((i, row) # rest) t =
     (case geom row of
        None \<Rightarrow> Inl AttributeError
      | Some g \<Rightarrow>
          (let possibles = (if is_empty g then [] else sindex_intersection rock (bounds g))
           in case tag_candidates (feats rock) g possibles [] (nw_groups t, nw_connections t) of
                (touched_nws, groups, conns) \<Rightarrow>
                  tag_aims rock rest
                    \<lparr>touch_idxs = (if touched_nws \<noteq> [] then touch_idxs t @ [i] else touch_idxs t),
                     nw_groups = groups, nw_connections = conns\<rparr>))"

text \<open>
  Section 5: \<open>find_connected_components\<close>. \<open>dfs\<close> calls itself once per node it
  reaches; the first argument is the number of nested calls the interpreter still allows,
  and a deeper recursion is a RecursionError.
\<close>

definition neighbours :: "graph \<Rightarrow> nat \<Rightarrow> nat list" where
  "neighbours graph node = (case map_of graph node of Some vs \<Rightarrow> vs | None \<Rightarrow> [])"

fun dfs :: "nat \<Rightarrow> graph \<Rightarrow> nat \<Rightarrow> nat set \<times> nat list \<Rightarrow> error + nat set \<times> nat list"
and dfs_loop :: "nat \<Rightarrow> graph \<Rightarrow> nat list \<Rightarrow> nat set \<times> nat list \<Rightarrow> error + nat set \<times> nat list" where
  "dfs 0 graph node s = Inl RecursionError"
| "dfs (Suc depth) graph node (visited, component) =
     dfs_loop depth graph (neighbours graph node) (insert node visited, component @ [node])"
| "dfs_loop depth graph [] s = Inr s"
| "dfs_loop depth graph (neighbor # rest) (visited, component) =
     (if neighbor \<notin> visited then
        (case dfs depth graph neighbor (visited, component) of
           Inl e \<Rightarrow> Inl e
         | Inr s' \<Rightarrow> dfs_loop depth graph rest s')
      else dfs_loop depth graph rest (visited, component))"

fun components_loop ::
  "nat \<Rightarrow> graph \<Rightarrow> nat list \<Rightarrow> nat set \<Rightarrow> nat list list \<Rightarrow> error + nat list list" where
  "components_loop depth graph [] visited found = Inr found"
| "components_loop depth graph (node # rest) visited found =
     (if node \<notin> visited then
        (case dfs depth graph node (visited, []) of
           Inl e \<Rightarrow> Inl e
         | Inr (visited', component) \<Rightarrow>
             components_loop depth graph rest visited' (found @ [component]))
      else components_loop depth graph rest visited found)"

definition find_connected_components :: "nat \<Rightarrow> graph \<Rightarrow> error + nat list list" where
  "find_connected_components depth graph = components_loop depth graph (map fst graph) {} []"

text \<open>
  Section 6. The geometries dissolved for a list of rocky reefs: each reef's own geometry
  (as it was loaded) and the AIMS polygons of its group.
\<close>

definition group_of :: "(nat \<times> geometry list) list \<Rightarrow> nat \<Rightarrow> geometry list" where
  "group_of groups k = (case map_of groups k of Some xs \<Rightarrow> xs | None \<Rightarrow> [])"

definition reef_geoms :: "gdf \<Rightarrow> (nat \<times> geometry list) list \<Rightarrow> nat list \<Rightarrow> geometry list" where
  "reef_geoms rock groups idxs =
     concat (map (\<lambda>nw_idx. List.map_filter id [geom (feats rock ! nw_idx)] @ group_of groups nw_idx)
                 idxs)"

definition dissolve_isolated ::
  "gdf \<Rightarrow> nat list \<Rightarrow> (nat \<times> geometry list) list \<Rightarrow> nat \<Rightarrow> feature list \<Rightarrow> feature list" where
  "dissolve_isolated rock idx_mapping groups nw_idx rows =
     (let original_idx = idx_mapping ! nw_idx;
          dissolved = unary_union (reef_geoms rock groups [nw_idx])
      in rows[original_idx :=
                set_attr ''debug_status'' (Str ''modified_isolated'')
                  ((rows ! original_idx)\<lparr>geom := Some dissolved\<rparr>)])"

text \<open>
  One connected component: the first reef of the component receives the union and keeps
  its row; the others are marked for removal.
\<close>

definition dissolve_component ::
  "gdf \<Rightarrow> nat list \<Rightarrow> (nat \<times> geometry list) list \<Rightarrow> nat list \<Rightarrow>
   feature list \<times> nat list \<Rightarrow> feature list \<times> nat list" where
  "dissolve_component rock idx_mapping groups component acc =
     (case acc of (rows, nw_features_to_remove) \<Rightarrow>
        if component = [] then (rows, nw_features_to_remove)
        else
          (let primary_nw_idx = hd component;
               primary_original_idx = idx_mapping ! primary_nw_idx;
               dissolved = unary_union (reef_geoms rock groups component)
           in (rows[primary_original_idx :=
                      set_attr ''debug_status''
                        (Str (''primary_with_'' @ show_nat (length component - 1) @ ''_others''))
                        ((rows ! primary_original_idx)\<lparr>geom := Some dissolved\<rparr>)],
               nw_features_to_remove @ map (\<lambda>other_nw_idx. idx_mapping ! other_nw_idx)
                                            (tl component))))"

record dissolved =
  merged_rows :: "feature list"
  nw_features_to_remove :: "nat list"
  connected_components :: "nat list list"
  tags :: tagging

text \<open>
  Sections 1.5 to 6 together: the rows of the feature layer after the dissolve and before
  the removal, the positions marked for removal, and the components and dictionaries they
  were computed from.
\<close>

definition dissolve :: "nat \<Rightarrow> gdf \<Rightarrow> gdf \<Rightarrow> error + dissolved" where
  "dissolve depth gdf_nw gdf_aims =
     (let tracked = track_nw gdf_nw;
          aims = prepare_aims tracked gdf_aims
      in if ''Feat_L3'' \<notin> set (columns tracked) then Inl KeyError
         else
           (let rock = gdf_nw_rock tracked;
                idx_mapping = original_indices tracked
            in case tag_aims rock (zip [0..<length (feats aims)] (feats aims))
                      \<lparr>touch_idxs = [], nw_groups = [], nw_connections = []\<rparr> of
                 Inl e \<Rightarrow> Inl e
               | Inr t \<Rightarrow>
                   (case find_connected_components depth (nw_connections t) of
                      Inl e \<Rightarrow> Inl e
                    | Inr comps \<Rightarrow>
                        (let isolated_nw_indices =
                               filter (\<lambda>k. k \<notin> set (concat comps)) (map fst (nw_groups t));
                             rows1 = fold (dissolve_isolated rock idx_mapping (nw_groups t))
                                       isolated_nw_indices (feats tracked)
                         in case fold (dissolve_component rock idx_mapping (nw_groups t)) comps
                                   (rows1, []) of
                              (rows2, to_remove) \<Rightarrow>
                                Inr \<lparr>merged_rows = rows2, nw_features_to_remove = to_remove,
                                     connected_components = comps, tags = t\<rparr>))))"

text \<open>
  The rows of the feature layer that go to the output: all of them, or, when something
  was dissolved and marked, those at the positions that are not marked.
\<close>

definition surviving_rows :: "dissolved \<Rightarrow> feature list" where
  "surviving_rows d =
     (if nw_groups (tags d) \<noteq> [] \<and> nw_features_to_remove d \<noteq> []
      then map (\<lambda>i. merged_rows d ! i)
             (filter (\<lambda>i. i \<notin> set (nw_features_to_remove d)) [0..<length (merged_rows d)])
      else merged_rows d)"

text \<open>
  Sections 7 and 7.5: the output frame (the surviving rows, then the AIMS polygons that
  reached no rocky reef, marked as new), and the report of the original identifiers that
  are missing from it: for each of them the first original row that carries it. A null
  identifier compares equal to nothing, so no row is found for it.
\<close>

definition missing_nw_features :: "gdf \<Rightarrow> gdf \<Rightarrow> feature list" where
  "missing_nw_features gdf_nw gdf_result =
     (let output_ids = map (\<lambda>f. attr f ''DebugID'') (feats gdf_result);
          missing_nw_ids = filter (\<lambda>nw_id. nw_id \<notin> set output_ids) (nw_ids_original gdf_nw)
      in concat (map (\<lambda>nw_id.
            case filter (\<lambda>f. nw_id \<noteq> Null \<and> attr f ''DebugID'' = nw_id)
                   (feats (track_nw gdf_nw)) of
              [] \<Rightarrow> []
            | feature_info # others \<Rightarrow> [feature_info]) missing_nw_ids))"

definition merge_rocky_reefs :: "nat \<Rightarrow> gdf \<Rightarrow> gdf \<Rightarrow> error + gdf \<times> feature list" where
  "merge_rocky_reefs depth gdf_nw gdf_aims =
     (case dissolve depth gdf_nw gdf_aims of
        Inl e \<Rightarrow> Inl e
      | Inr d \<Rightarrow>
          (let tracked = track_nw gdf_nw;
               aims = prepare_aims tracked gdf_aims;
               aims_new = map (\<lambda>(i, row). set_attr ''debug_status'' (Str ''new_feature'') row)
                            (filter (\<lambda>(i, row). i \<notin> set (touch_idxs (tags d)))
                               (zip [0..<length (feats aims)] (feats aims)));
               gdf_result = concat_frames
                              [\<lparr>columns = columns tracked, feats = surviving_rows d\<rparr>,
                               \<lparr>columns = columns aims, feats = aims_new\<rparr>]
           in Inr (gdf_result, missing_nw_features gdf_nw gdf_result)))"

section \<open>Stage 05: clipping Rocky Reef out of the other features\<close>

text \<open>
  The constructor \<open>MultiPolygon(polygons)\<close>: empty members are dropped, a multipolygon
  in first place is refused with a ValueError, and a later member that is not a polygon
  fails with a TypeError when the constructor indexes it.
\<close>

fun is_polygonal :: "geometry \<Rightarrow> bool" where
  "is_polygonal (Polygon p) = True"
| "is_polygonal (MultiPolygon ps) = True"
| "is_polygonal g = False"

fun is_multipolygon :: "geometry \<Rightarrow> bool" where
  "is_multipolygon (MultiPolygon ps) = True"
| "is_multipolygon g = False"

fun polygons_of :: "geometry list \<Rightarrow> polygon list option" where
  "polygons_of [] = Some []"
| "polygons_of (Polygon p # gs) =
     (case polygons_of gs of None \<Rightarrow> None | Some ps \<Rightarrow> Some (p # ps))"
| "polygons_of (g # gs) = None"

definition new_MultiPolygon :: "geometry list \<Rightarrow> error + geometry" where
  "new_MultiPolygon polygons =
     (let kept = filter (\<lambda>p. \<not> is_empty p) polygons in
      if kept = [] then Inr (MultiPolygon [])
      else if is_multipolygon (hd kept) then Inl ValueError
      else (case polygons_of kept of
              None \<Rightarrow> Inl TypeError
            | Some ps \<Rightarrow> Inr (MultiPolygon ps)))"

text \<open>The polygonal members of a collection, as \<open>process_geometry\<close> returns them.\<close>

definition collect_polygons :: "geometry list \<Rightarrow> error + geometry option" where
  "collect_polygons gs =
     (let polygons = filter is_polygonal gs in
      if polygons = [] then Inr None
      else if length polygons = 1 then Inr (Some (hd polygons))
      else (case new_MultiPolygon polygons of
              Inl e \<Rightarrow> Inl e
            | Inr m \<Rightarrow> Inr (Some m)))"

text \<open>
  \<open>process_geometry\<close> of stage 05. The last branch runs inside \<open>try\<close>: a geometry of
  another type has no polygonal member, so it gives \<open>None\<close>.
\<close>

fun process_geometry05 :: "geometry \<Rightarrow> error + geometry option" where
  "process_geometry05 g =
     (if is_empty g then Inr None
      else (case g of
              Polygon p \<Rightarrow> Inr (Some g)
            | MultiPolygon ps \<Rightarrow> Inr (Some g)
            | GeometryCollection gs \<Rightarrow> collect_polygons gs
            | _ \<Rightarrow> Inr None))"

text \<open>
  The loop over the rocky reefs that intersect a row: each one that still intersects
  what is left is cut out; \<open>None\<close> is the \<open>break\<close> on a geometry cut down to nothing.
\<close>

fun clip_rocks :: "geometry \<Rightarrow> feature list \<Rightarrow> error + geometry option" where
  "clip_rocks non_rocky_geom [] = Inr (Some non_rocky_geom)"
| "clip_rocks non_rocky_geom (rocky_row # rest) =
     (case geom rocky_row of
        None \<Rightarrow> clip_rocks non_rocky_geom rest
      | Some rocky_geom \<Rightarrow>
          if intersects non_rocky_geom rocky_geom then
            (case process_geometry05 (difference non_rocky_geom rocky_geom) of
               Inl e \<Rightarrow> Inl e
             | Inr None \<Rightarrow> Inr None
             | Inr (Some g') \<Rightarrow> clip_rocks g' rest)
          else clip_rocks non_rocky_geom rest)"

text \<open>
  One pass of the outer loop: the rows it appends to \<open>clipped_non_rocky_reefs\<close>. A row
  with a null geometry intersects no rocky reef and is kept as it is.
\<close>

definition clip_row :: "feature list \<Rightarrow> feature \<Rightarrow> error + feature list" where
  "clip_row rocky_reefs non_rocky_row =
     (case geom non_rocky_row of
        None \<Rightarrow> Inr [non_rocky_row]
      | Some non_rocky_geom \<Rightarrow>
          (let intersecting_rocky_reefs =
                 filter (\<lambda>r. case geom r of
                                None \<Rightarrow> False
                              | Some rg \<Rightarrow> intersects rg non_rocky_geom) rocky_reefs
           in if length intersecting_rocky_reefs > 0 then
                (case clip_rocks non_rocky_geom intersecting_rocky_reefs of
                   Inl e \<Rightarrow> Inl e
                 | Inr None \<Rightarrow> Inr []
                 | Inr (Some g') \<Rightarrow>
                     if \<not> is_empty g' then Inr [non_rocky_row\<lparr>geom := Some g'\<rparr>]
                     else Inr [])
              else Inr [non_rocky_row]))"

fun clip_rows :: "feature list \<Rightarrow> feature list \<Rightarrow> error + feature list" where
  "clip_rows rocky_reefs [] = Inr []"
| "clip_rows rocky_reefs (row # rest) =
     (case clip_row rocky_reefs row of
        Inl e \<Rightarrow> Inl e
      | Inr kept \<Rightarrow>
          (case clip_rows rocky_reefs rest of
             Inl e \<Rightarrow> Inl e
           | Inr others \<Rightarrow> Inr (kept @ others)))"

definition is_rocky :: "feature \<Rightarrow> bool" where
  "is_rocky f \<longleftrightarrow> attr f ''Feat_L3'' = Str ''Rocky Reef''"

text \<open>
  The frame stage 05 writes: the rocky reefs as loaded, then the clipped other rows.
  Reading the column \<open>Feat_L3\<close> of a frame that has none is a KeyError.
\<close>

definition clip_rocks_from_reefs :: "gdf \<Rightarrow> error + gdf" where
  "clip_rocks_from_reefs g =
     (if ''Feat_L3'' \<notin> set (columns g) then Inl KeyError
      else
        (let rocky_reefs = rows_where is_rocky g;
             non_rocky_reefs = rows_where (\<lambda>f. \<not> is_rocky f) g
         in case clip_rows (feats rocky_reefs) (feats non_rocky_reefs) of
              Inl e \<Rightarrow> Inl e
            | Inr clipped_non_rocky_reefs \<Rightarrow>
                Inr (concat_frames
                       [rocky_reefs,
                        \<lparr>columns = (if clipped_non_rocky_reefs = [] then [] else columns g),
                         feats = clipped_non_rocky_reefs\<rparr>])))"

section \<open>Stage 08: clipping the features against the coastline\<close>




definition has_extent :: "feature \<Rightarrow> bool" where
  "has_extent f \<longleftrightarrow> (case geom f of None \<Rightarrow> False | Some g \<Rightarrow> \<not> is_empty g)"






section \<open>Stage 07: filling the shallow mask with sediment features\<close>

definition default_vals :: "(string \<times> val) list" where
  "default_vals =
     [(''EdgeSrc'', Str ''Semi-auto shallow mask''),
      (''Notes'', Null),
      (''FeatConf'', Str ''Medium''),
      (''TypeConf'', Str ''Medium''),
      (''EdgeAcc_m'', Num 250),
      (''RB_Type_L3'', Str ''Shallow sediment''),
      (''DepthCat'', Null),
      (''DepthCatSr'', Null),
      (''Feat_L3'', Str ''Shallow Sediment''),
      (''GeoAttach'', Str ''Fringing''),
      (''Relief'', Str ''Low''),
      (''FlowInflu'', Str ''Unknown''),
      (''SO_L2'', Str ''Terrigenous''),
      (''Paleo'', Str ''No'')]"

text \<open>\<open>process_geometry\<close> of stage 07, which also accepts \<open>None\<close>.\<close>

fun process_geometry07 :: "geometry option \<Rightarrow> error + geometry option" where
  "process_geometry07 None = Inr None"
| "process_geometry07 (Some g) =
     (if is_empty g then Inr None
      else (case g of
              Polygon p \<Rightarrow> Inr (Some g)
            | MultiPolygon ps \<Rightarrow> Inr (Some g)
            | GeometryCollection gs \<Rightarrow> collect_polygons gs
            | _ \<Rightarrow> Inr None))"

definition sediment_feature :: "geometry \<Rightarrow> feature" where
  "sediment_feature g = \<lparr>props = default_vals, geom = Some g\<rparr>"

text \<open>
  The features appended for one processed geometry: one per valid, non-empty part of a
  multipolygon, or one for the geometry itself.
\<close>

definition sediment_parts :: "geometry \<Rightarrow> feature list" where
  "sediment_parts processed_geom =
     (if is_empty processed_geom then []
      else (case processed_geom of
              MultiPolygon ps \<Rightarrow>
                map (\<lambda>single_poly. sediment_feature (Polygon single_poly))
                  (filter (\<lambda>single_poly. pvalid single_poly \<and> pcells single_poly \<noteq> {||}) ps)
            | _ \<Rightarrow> [sediment_feature processed_geom]))"

text \<open>
  One pass of the loop over the shallow mask. A mask row with a null geometry fails at
  \<open>shallow_geom.is_valid\<close>; an invalid or empty one is skipped.
\<close>

definition clip_shallow_row :: "geometry \<Rightarrow> feature \<Rightarrow> error + feature list" where
  "clip_shallow_row dissolved_nw shallow_row =
     (case geom shallow_row of
        None \<Rightarrow> Inl AttributeError
      | Some shallow_geom \<Rightarrow>
          if \<not> is_valid shallow_geom \<or> is_empty shallow_geom then Inr []
          else (case process_geometry07 (Some (difference shallow_geom dissolved_nw)) of
                  Inl e \<Rightarrow> Inl e
                | Inr None \<Rightarrow> Inr []
                | Inr (Some processed_geom) \<Rightarrow> Inr (sediment_parts processed_geom)))"

fun clip_shallow_rows :: "geometry \<Rightarrow> feature list \<Rightarrow> error + feature list" where
  "clip_shallow_rows dissolved_nw [] = Inr []"
| "clip_shallow_rows dissolved_nw (row # rest) =
     (case clip_shallow_row dissolved_nw row of
        Inl e \<Rightarrow> Inl e
      | Inr created \<Rightarrow>
          (case clip_shallow_rows dissolved_nw rest of
             Inl e \<Rightarrow> Inl e
           | Inr others \<Rightarrow> Inr (created @ others)))"

text \<open>
  Every column of the feature layer that the new rows lack is added to them as null.
\<close>

definition fill_columns :: "string list \<Rightarrow> feature \<Rightarrow> feature" where
  "fill_columns cols f =
     f\<lparr>props := props f @
          map (\<lambda>col. (col, Null))
            (filter (\<lambda>col. col \<notin> set (map fst (props f)) \<and> col \<noteq> ''geometry'') cols)\<rparr>"

text \<open>
  The rows of \<open>shallow_sediment_gdf\<close>: the mask minus the union of all feature
  geometries, cut into single polygons carrying the default attributes.
\<close>

definition shallow_sediment_features :: "gdf \<Rightarrow> gdf \<Rightarrow> error + feature list" where
  "shallow_sediment_features nw_features shallow_mask =
     (let all_nw_geometries = List.map_filter geom (feats nw_features);
          dissolved_nw = unary_union all_nw_geometries
      in case clip_shallow_rows dissolved_nw (feats shallow_mask) of
           Inl e \<Rightarrow> Inl e
         | Inr clipped_shallow_features \<Rightarrow>
             Inr (map (fill_columns (columns nw_features)) clipped_shallow_features))"

definition clip_merge_shallow_sed :: "gdf \<Rightarrow> gdf \<Rightarrow> error + gdf" where
  "clip_merge_shallow_sed nw_features shallow_mask =
     (case shallow_sediment_features nw_features shallow_mask of
        Inl e \<Rightarrow> Inl e
      | Inr created \<Rightarrow>
          Inr (concat_frames
                 [nw_features,
                  \<lparr>columns = (if created = [] then []
                               else map fst default_vals @
                                    filter (\<lambda>col. col \<notin> set (map fst default_vals) \<and>
                                                   col \<noteq> ''geometry'') (columns nw_features)),
                   feats = created\<rparr>]))"

definition non_target :: "feature \<Rightarrow> bool" where
  "non_target f \<longleftrightarrow> \<not> has_type ''Platform Coral Reef'' f \<and> \<not> has_type ''Fringing Coral Reef'' f"

text \<open>
  The nodes of the connection graph of stage 04: the members of its neighbour sets, and
  these together with its keys.
\<close>

definition gvalues :: "graph \<Rightarrow> nat set" where
  "gvalues G = (\<Union>(k, vs)\<in>set G. set vs)"

definition gnodes :: "graph \<Rightarrow> nat set" where
  "gnodes G = set (map fst G) \<union> gvalues G"

text \<open>
  Two lists of rows agree in everything but the geometry and the tracking column
  \<open>debug_status\<close>, the two cells the dissolve of stage 04 writes.
\<close>

definition same_attrs :: "feature list \<Rightarrow> feature list \<Rightarrow> bool" where
  "same_attrs rows0 rows1 \<longleftrightarrow>
     length rows1 = length rows0 \<and>
     (\<forall>q<length rows0. \<forall>k. k \<noteq> ''debug_status'' \<longrightarrow> attr (rows1 ! q) k = attr (rows0 ! q) k)"



section \<open>Scenario data\<close>

abbreviation platform_strip :: geometry where
  "platform_strip \<equiv> Polygon (Poly {|(0,0),(1,0),(2,0),(3,0),(4,0),(5,0),(6,0),(7,0),(8,0),(9,0),(10,0),(11,0)|} True)"

abbreviation intertidal_west :: feature where
  "intertidal_west \<equiv> \<lparr>props = [(''RB_Type_L3'', Str ''High Intertidal Coral Reef'')],
     geom = Some (Polygon (Poly {|(0,0),(1,0),(2,0),(3,0),(4,0),(5,0)|} True))\<rparr>"

abbreviation intertidal_mid :: feature where
  "intertidal_mid \<equiv> \<lparr>props = [(''RB_Type_L3'', Str ''High Intertidal Coral Reef'')],
     geom = Some (Polygon (Poly {|(3,0),(4,0),(5,0),(6,0),(7,0),(8,0)|} True))\<rparr>"

abbreviation intertidal_east :: feature where
  "intertidal_east \<equiv> \<lparr>props = [(''RB_Type_L3'', Str ''High Intertidal Coral Reef'')],
     geom = Some (Polygon (Poly {|(6,0),(7,0),(8,0),(9,0),(10,0),(11,0)|} True))\<rparr>"

abbreviation platform_feature :: feature where
  "platform_feature \<equiv> \<lparr>props = [(''RB_Type_L3'', Str ''Platform Coral Reef'')],
     geom = Some platform_strip\<rparr>"

abbreviation scan_frame :: gdf where
  "scan_frame \<equiv> \<lparr>columns = [''RB_Type_L3''],
     feats = [\<lparr>props = [(''RB_Type_L3'', Str ''Platform Coral Reef'')],
               geom = Some (Polygon (Poly {|(0,0),(1,0),(2,0)|} True))\<rparr>,
              \<lparr>props = [(''RB_Type_L3'', Str ''Fringing Coral Reef'')],
               geom = Some (Polygon (Poly {|(1,0),(2,0),(3,0)|} True))\<rparr>,
              \<lparr>props = [(''RB_Type_L3'', Str ''Island'')],
               geom = Some (Polygon (Poly {|(4,0)|} True))\<rparr>,
              \<lparr>props = [(''RB_Type_L3'', Str ''Platform Shallow Reef Flat'')],
               geom = Some (Polygon (Poly {|(3,0),(3,1)|} True))\<rparr>]\<rparr>"

abbreviation scan_overlap :: overlap where
  "scan_overlap \<equiv> \<lparr>feature_i_id = 0, feature_j_id = 1,
      type_i = Str ''Platform Coral Reef'', type_j = Str ''Fringing Coral Reef'',
      overlap_geom = Polygon (Poly {|(1,0),(2,0)|} True)\<rparr>"

abbreviation island_feature :: feature where
  "island_feature \<equiv> \<lparr>props = [(''RB_Type_L3'', Str ''Island'')],
     geom = Some (Polygon (Poly {|(5,5)|} True))\<rparr>"

abbreviation review_frame :: gdf where
  "review_frame \<equiv> \<lparr>columns = [''RB_Type_L3''],
     feats = [island_feature, platform_feature, intertidal_west]\<rparr>"

abbreviation clean_frame :: gdf where
  "clean_frame \<equiv> \<lparr>columns = [''RB_Type_L3''],
     feats = [\<lparr>props = [(''RB_Type_L3'', Str ''Platform Coral Reef'')],
               geom = Some (Polygon (Poly {|(6,0),(7,0),(8,0),(9,0),(10,0),(11,0)|} True))\<rparr>,
              intertidal_west, island_feature]\<rparr>"

abbreviation rocky_feature :: feature where
  "rocky_feature \<equiv> \<lparr>props = [(''Feat_L3'', Str ''Rocky Reef'')],
     geom = Some (Polygon (Poly {|(0,0),(1,0)|} True))\<rparr>"

abbreviation rocks_frame :: gdf where
  "rocks_frame \<equiv> \<lparr>columns = [''Feat_L3''],
     feats = [\<lparr>props = [(''Feat_L3'', Str ''Coral Reef Shallow'')],
               geom = Some (Polygon (Poly {|(1,0),(2,0)|} True))\<rparr>,
              rocky_feature]\<rparr>"

abbreviation clean_rocks_frame :: gdf where
  "clean_rocks_frame \<equiv> \<lparr>columns = [''Feat_L3''],
     feats = [rocky_feature,
              \<lparr>props = [(''Feat_L3'', Str ''Coral Reef Shallow'')],
               geom = Some (Polygon (Poly {|(2,0)|} True))\<rparr>]\<rparr>"

abbreviation old_frame :: gdf where
  "old_frame \<equiv> \<lparr>columns = [''RB_Type_L3''], feats = [island_feature]\<rparr>"

abbreviation exists_message :: string where
  "exists_message \<equiv> ''Output file already exists: '' @ OUT_PATH @ [CHR 0x0A] @
                     ''Please move or delete it before running this script.''"

abbreviation rock_row :: "string \<Rightarrow> string \<Rightarrow> cell fset \<Rightarrow> feature" where
  "rock_row ident status r \<equiv>
     \<lparr>props = [(''Feat_L3'', Str ''Rocky Reef''), (''DebugID'', Str ident),
               (''debug_status'', Str status)],
      geom = Some (Polygon (Poly r True))\<rparr>"

abbreviation three_reefs :: gdf where
  "three_reefs \<equiv>
     \<lparr>columns = [''Feat_L3'', ''DebugID'', ''debug_status''],
      feats = [rock_row ''NW_0'' ''loaded'' {|(0, 0)|}, rock_row ''NW_1'' ''loaded'' {|(2, 0)|},
               rock_row ''NW_2'' ''loaded'' {|(4, 0)|}]\<rparr>"

abbreviation two_links :: gdf where
  "two_links \<equiv>
     \<lparr>columns = [''FID''],
      feats = [\<lparr>props = [(''FID'', Num 0)], geom = Some (Polygon (Poly {|(3, 0)|} True))\<rparr>,
               \<lparr>props = [(''FID'', Num 1)], geom = Some (Polygon (Poly {|(1, 0)|} True))\<rparr>]\<rparr>"

abbreviation reefs_dissolved :: dissolved where
  "reefs_dissolved \<equiv>
     \<lparr>merged_rows =
        [rock_row ''NW_0'' ''original'' {|(0, 0)|},
         rock_row ''NW_1'' ''primary_with_2_others'' {|(0, 0), (1, 0), (2, 0), (3, 0), (4, 0)|},
         rock_row ''NW_2'' ''original'' {|(4, 0)|}],
      nw_features_to_remove = [2, 0],
      connected_components = [[1, 2, 0]],
      tags = \<lparr>touch_idxs = [0, 1],
               nw_groups = [(1, [Polygon (Poly {|(3, 0)|} True), Polygon (Poly {|(1, 0)|} True)]),
                            (2, [Polygon (Poly {|(3, 0)|} True)]),
                            (0, [Polygon (Poly {|(1, 0)|} True)])],
               nw_connections = [(1, [2, 0]), (2, [1]), (0, [1])]\<rparr>\<rparr>"

abbreviation reefs_merged :: gdf where
  "reefs_merged \<equiv>
     \<lparr>columns = [''Feat_L3'', ''DebugID'', ''debug_status'', ''FID'', ''EdgeSrc'', ''Notes'',
                 ''EdgeAcc_m'', ''RB_Type_L3'', ''GeoAttach'', ''Relief'', ''FlowInflu'', ''SO_L2'',
                 ''Paleo'', ''FeatConf'', ''TypeConf'', ''DepthCat'', ''DepthCatSr''],
      feats = [rock_row ''NW_1'' ''primary_with_2_others''
                 {|(0, 0), (1, 0), (2, 0), (3, 0), (4, 0)|}]\<rparr>"










section \<open>Properties of the raster primitives\<close>

lemma regions_union_Cons: "regions_union (r # rs) = r |\<union>| regions_union rs"
proof -
  have gen: "fold (|\<union>|) rs acc = acc |\<union>| fold (|\<union>|) rs {||}" for acc
  proof (induction rs arbitrary: acc)
    case Nil
    show ?case by simp
  next
    case (Cons a rs)
    have "fold (|\<union>|) (a # rs) acc = fold (|\<union>|) rs (a |\<union>| acc)" by simp
    also have "\<dots> = (a |\<union>| acc) |\<union>| fold (|\<union>|) rs {||}" by (rule Cons.IH)
    also have "\<dots> = acc |\<union>| (a |\<union>| fold (|\<union>|) rs {||})" by blast
    also have "a |\<union>| fold (|\<union>|) rs {||} = fold (|\<union>|) rs (a |\<union>| {||})"
      using Cons.IH[of "a |\<union>| {||}"] by simp
    finally show ?case by simp
  qed
  have "regions_union (r # rs) = fold (|\<union>|) rs r" by (simp add: regions_union_def)
  also have "\<dots> = r |\<union>| fold (|\<union>|) rs {||}" by (rule gen)
  finally show ?thesis by (simp add: regions_union_def)
qed

lemma regions_union_Nil: "regions_union [] = {||}"
  by (simp add: regions_union_def)

lemma grow_subset: "s |\<subseteq>| r \<Longrightarrow> grow r s |\<subseteq>| r"
  by (auto simp: grow_def)

lemma funpow_grow_subset: "s |\<subseteq>| r \<Longrightarrow> ((grow r) ^^ n) s |\<subseteq>| r"
  by (induction n) (simp_all add: grow_subset)

lemma funpow_grow_incr: "s |\<subseteq>| ((grow r) ^^ n) s"
proof (induction n)
  case 0
  show ?case by simp
next
  case (Suc n)
  have "((grow r) ^^ n) s |\<subseteq>| grow r (((grow r) ^^ n) s)" by (auto simp: grow_def)
  with Suc show ?case by auto
qed

lemma component_of_subset: "c |\<in>| r \<Longrightarrow> component_of r c |\<subseteq>| r"
  unfolding component_of_def by (rule funpow_grow_subset) simp

lemma component_of_seed: "c |\<in>| component_of r c"
  unfolding component_of_def using funpow_grow_incr[of "{|c|}" "fcard r" r] by auto

lemma components_unfold:
  "r \<noteq> {||} \<Longrightarrow>
   components r = component_of r (fMin r) # components (r |-| component_of r (fMin r))"
  by (subst components.simps) (simp add: Let_def)

lemma components_empty: "components {||} = []"
  by (subst components.simps) simp

lemma components_union: "regions_union (components r) = r"
proof (induction r rule: components.induct)
  case (1 r)
  show ?case
  proof (cases "r = {||}")
    case True
    then show ?thesis by (simp add: components_empty regions_union_Nil)
  next
    case False
    define k where "k = component_of r (fMin r)"
    have "fMin r |\<in>| r" using False by (simp add: fMin_in)
    then have sub: "k |\<subseteq>| r" unfolding k_def by (rule component_of_subset)
    have ih: "regions_union (components (r |-| k)) = r |-| k" using 1[OF False k_def] .
    have eq: "components r = k # components (r |-| k)"
      unfolding k_def using False by (rule components_unfold)
    have "regions_union (components r) = k |\<union>| (r |-| k)"
      by (simp only: eq regions_union_Cons ih)
    also have "\<dots> = r" using sub by blast
    finally show ?thesis .
  qed
qed

lemma components_card: "sum_list (map fcard (components r)) = fcard r"
proof (induction r rule: components.induct)
  case (1 r)
  show ?case
  proof (cases "r = {||}")
    case True
    then show ?thesis by (simp add: components_empty)
  next
    case False
    define k where "k = component_of r (fMin r)"
    have "fMin r |\<in>| r" using False by (simp add: fMin_in)
    then have sub: "k |\<subseteq>| r" unfolding k_def by (rule component_of_subset)
    have ih: "sum_list (map fcard (components (r |-| k))) = fcard (r |-| k)"
      using 1[OF False k_def] .
    have eq: "components r = k # components (r |-| k)"
      unfolding k_def using False by (rule components_unfold)
    have c1: "fcard (r |-| k) = fcard r - fcard k" using sub by (rule fcard_funion_fsubset)
    have c2: "fcard k \<le> fcard r" using sub by (rule fcard_mono)
    have "sum_list (map fcard (components r)) = fcard k + fcard (r |-| k)"
      by (simp only: eq list.map sum_list.Cons ih)
    then show ?thesis using c1 c2 by simp
  qed
qed

lemma components_nonempty: "k \<in> set (components r) \<Longrightarrow> k \<noteq> {||}"
proof (induction r rule: components.induct)
  case (1 r)
  show ?case
  proof (cases "r = {||}")
    case True
    with 1(2) show ?thesis by (simp add: components_empty)
  next
    case False
    define k0 where "k0 = component_of r (fMin r)"
    have eq: "components r = k0 # components (r |-| k0)"
      unfolding k0_def using False by (rule components_unfold)
    have seed: "fMin r |\<in>| k0" unfolding k0_def by (rule component_of_seed)
    from 1(2) eq have "k = k0 \<or> k \<in> set (components (r |-| k0))" by simp
    then show ?thesis
    proof
      assume "k = k0"
      with seed show ?thesis by auto
    next
      assume "k \<in> set (components (r |-| k0))"
      then show ?thesis using 1(1)[OF False k0_def] by simp
    qed
  qed
qed

lemma map_pcells_Poly: "map (pcells \<circ> (\<lambda>k. Poly k True)) ks = ks"
  by (induction ks) simp_all

lemma region_assemble [simp]: "region (assemble r) = r"
proof (cases "components r")
  case Nil
  then show ?thesis using components_union[of r] by (simp add: assemble_def regions_union_Nil)
next
  case (Cons k ks)
  show ?thesis
  proof (cases ks)
    case Nil
    with Cons show ?thesis using components_union[of r]
      by (simp add: assemble_def regions_union_Cons regions_union_Nil)
  next
    case (Cons k' ks')
    with \<open>components r = k # ks\<close> show ?thesis using components_union[of r]
      by (simp add: assemble_def map_pcells_Poly)
  qed
qed

lemma sum_parea_Poly:
  "sum_list (map (parea \<circ> (\<lambda>k. Poly k True)) ks) = cell_area * of_nat (sum_list (map fcard ks))"
  by (induction ks) (simp_all add: parea_def algebra_simps)

lemma area_assemble [simp]: "area (assemble r) = cell_area * of_nat (fcard r)"
proof (cases "components r")
  case Nil
  then show ?thesis using components_card[of r] by (simp add: assemble_def parea_def)
next
  case (Cons k ks)
  show ?thesis
  proof (cases ks)
    case Nil
    with Cons show ?thesis using components_card[of r]
      by (simp add: assemble_def parea_def)
  next
    case (Cons k' ks')
    with \<open>components r = k # ks\<close> show ?thesis
      using components_card[of r] sum_parea_Poly[of "components r"]
      by (simp add: assemble_def)
  qed
qed

lemma is_empty_assemble [simp]: "is_empty (assemble r) \<longleftrightarrow> r = {||}"
proof (cases "components r")
  case Nil
  then show ?thesis using components_union[of r] by (simp add: assemble_def regions_union_Nil)
next
  case (Cons k ks)
  have ne: "\<forall>x \<in> set (components r). x \<noteq> {||}" using components_nonempty by blast
  have r: "r \<noteq> {||}" using Cons components_empty by auto
  have "\<not> is_empty (assemble r)"
  proof (cases ks)
    case Nil
    with Cons ne show ?thesis by (simp add: assemble_def)
  next
    case (Cons k' ks')
    with \<open>components r = k # ks\<close> ne show ?thesis by (simp add: assemble_def list_all_iff)
  qed
  with r show ?thesis by simp
qed

section \<open>Properties of the priority cut\<close>

lemma area_intersection: "area (intersection a b) = cell_area * of_nat (fcard (region a |\<inter>| region b))"
  by (simp add: intersection_def)

lemma area_intersection_mono:
  "region a |\<subseteq>| region a' \<Longrightarrow> area (intersection a b) \<le> area (intersection a' b)"
proof -
  assume "region a |\<subseteq>| region a'"
  then have "region a |\<inter>| region b |\<subseteq>| region a' |\<inter>| region b" by blast
  then have "fcard (region a |\<inter>| region b) \<le> fcard (region a' |\<inter>| region b)" by (rule fcard_mono)
  then show ?thesis by (simp add: area_intersection cell_area_def)
qed

lemma area_intersection_disjoint:
  "region a |\<inter>| region b = {||} \<Longrightarrow> area (intersection a b) = 0"
  by (simp add: area_intersection)

lemma not_intersects_disjoint: "\<not> intersects a b \<Longrightarrow> region a |\<inter>| region b = {||}"
proof (rule ccontr)
  assume ni: "\<not> intersects a b" and "region a |\<inter>| region b \<noteq> {||}"
  then obtain c where "c |\<in>| region a" "c |\<in>| region b" by auto
  then have "intersects a b" unfolding intersects_def by (auto intro!: fBexI[of _ c])
  with ni show False by simp
qed

lemma region_difference [simp]: "region (difference a b) = region a |-| region b"
  by (simp add: difference_def)

lemma cut_threshold_nonneg: "0 \<le> cut_threshold" by (simp add: cut_threshold_def)

lemma cut_loop_subset: "region (fst (cut_loop g ovs n)) |\<subseteq>| region g"
proof (induction ovs arbitrary: g n)
  case Nil show ?case by simp
next
  case (Cons ov ovs)
  show ?case
  proof (cases "geom ov")
    case None then show ?thesis using Cons.IH[of g n] by simp
  next
    case (Some og)
    have "region (fst (cut_loop (difference g og) ovs (Suc n))) |\<subseteq>| region g"
      using Cons.IH[of "difference g og" "Suc n"] by auto
    then show ?thesis using Some Cons.IH[of g n] by simp
  qed
qed

lemma cut_loop_residual:
  "ov \<in> set ovs \<Longrightarrow> geom ov = Some og \<Longrightarrow>
   area (intersection (fst (cut_loop g ovs n)) og) \<le> cut_threshold"
proof (induction ovs arbitrary: g n)
  case Nil then show ?case by simp
next
  case (Cons x ovs)
  show ?case
  proof (cases "geom x")
    case None
    with Cons.prems have "ov \<in> set ovs" by auto
    then show ?thesis using None Cons.IH[of g n] Cons.prems(2) by simp
  next
    case (Some xg)
    let ?cut = "intersects g xg \<and> area (intersection g xg) > cut_threshold"
    show ?thesis
    proof (cases "ov = x")
      case True
      then have xg: "xg = og" using Some Cons.prems(2) by simp
      show ?thesis
      proof (cases ?cut)
        case True
        have "region (fst (cut_loop (difference g og) ovs (Suc n))) |\<subseteq>| region g |-| region og"
          using cut_loop_subset[of "difference g og" ovs "Suc n"] by simp
        then have "region (fst (cut_loop (difference g og) ovs (Suc n))) |\<inter>| region og = {||}" by blast
        then have "area (intersection (fst (cut_loop (difference g og) ovs (Suc n))) og) = 0"
          by (rule area_intersection_disjoint)
        then show ?thesis using True Some xg cut_threshold_nonneg by simp
      next
        case False
        have le: "area (intersection g og) \<le> cut_threshold"
        proof (cases "intersects g og")
          case True with False xg show ?thesis by simp
        next
          case False
          then show ?thesis using not_intersects_disjoint[of g og] area_intersection_disjoint[of g og] cut_threshold_nonneg by simp
        qed
        have "area (intersection (fst (cut_loop g ovs n)) og) \<le> area (intersection g og)"
          by (rule area_intersection_mono) (rule cut_loop_subset)
        with le have "area (intersection (fst (cut_loop g ovs n)) og) \<le> cut_threshold" by simp
        moreover have "cut_loop g (x # ovs) n = cut_loop g ovs n" using False Some by auto
        ultimately show ?thesis by simp
      qed
    next
      case False
      with Cons.prems have mem: "ov \<in> set ovs" by auto
      show ?thesis
      proof (cases ?cut)
        case True
        then show ?thesis using Some Cons.IH[OF mem Cons.prems(2), of "difference g xg" "Suc n"] by simp
      next
        case False
        have "cut_loop g (x # ovs) n = cut_loop g ovs n" using False Some by auto
        then show ?thesis using Cons.IH[OF mem Cons.prems(2), of g n] by simp
      qed
    qed
  qed
qed

lemma cut_loop_noop:
  "(\<forall>ov\<in>set ovs. \<forall>og. geom ov = Some og \<longrightarrow> area (intersection g og) \<le> cut_threshold) \<Longrightarrow>
   cut_loop g ovs n = (g, n)"
proof (induction ovs)
  case Nil show ?case by simp
next
  case (Cons x ovs)
  then show ?case by (cases "geom x") auto
qed

lemma cut_loop_idem: "cut_loop (fst (cut_loop g ovs n)) ovs k = (fst (cut_loop g ovs n), k)"
  by (rule cut_loop_noop) (auto intro: cut_loop_residual)

lemma overlays_disjoint_Cons:
  "overlays_disjoint (f # fs) \<longleftrightarrow> (\<forall>h\<in>set fs. fdisjoint f h) \<and> overlays_disjoint fs"
  by (auto simp: list_all_iff fdisjoint_def fregion_def split: option.splits)

lemma significant_intersects:
  assumes "geom ov = Some og" "significant g ov" shows "intersects g og"
proof (rule ccontr)
  assume "\<not> intersects g og"
  then have "area (intersection g og) = 0"
    using not_intersects_disjoint area_intersection_disjoint by blast
  with assms show False by (simp add: significant_def cut_threshold_def)
qed

lemma cut_loop_Cons_sig:
  "cut_loop g (ov # ovs) n =
     (if significant g ov then cut_loop (difference g (the (geom ov))) ovs (Suc n)
      else cut_loop g ovs n)"
proof (cases "geom ov")
  case None then show ?thesis by (simp add: significant_def)
next
  case (Some og)
  show ?thesis
  proof (cases "significant g ov")
    case True
    have "intersects g og" by (rule significant_intersects[OF Some True])
    with True Some show ?thesis by (simp add: significant_def)
  next
    case False
    with Some show ?thesis by (simp add: significant_def)
  qed
qed

lemma significant_cong:
  "region g' |\<inter>| fregion ov = region g |\<inter>| fregion ov \<Longrightarrow> significant g' ov = significant g ov"
  by (cases "geom ov") (simp_all add: significant_def fregion_def area_intersection)

lemma cut_loop_disjoint:
  "overlays_disjoint ovs \<Longrightarrow>
   cut_loop g ovs n =
     (if filter (significant g) ovs = [] then g else assemble (region g |-| cut_union g ovs),
      n + length (filter (significant g) ovs))"
proof (induction ovs arbitrary: g n)
  case Nil show ?case by simp
next
  case (Cons ov ovs)
  from Cons.prems have dj: "\<forall>h\<in>set ovs. fdisjoint ov h" and rest: "overlays_disjoint ovs"
    unfolding overlays_disjoint_Cons by simp_all
  show ?case
  proof (cases "significant g ov")
    case False
    then show ?thesis using Cons.IH[OF rest, of g n] by (simp add: cut_loop_Cons_sig cut_union_def del: cut_loop.simps)
  next
    case True
    then obtain og where og: "geom ov = Some og" by (cases "geom ov") (auto simp: significant_def)
    let ?g1 = "difference g og"
    have fr: "fregion ov = region og" using og by (simp add: fregion_def)
    have same: "significant ?g1 h = significant g h" if "h \<in> set ovs" for h
    proof (rule significant_cong)
      from dj that have "region og |\<inter>| fregion h = {||}" by (simp add: fdisjoint_def fr)
      then show "region ?g1 |\<inter>| fregion h = region g |\<inter>| fregion h" by auto
    qed
    then have filt: "filter (significant ?g1) ovs = filter (significant g) ovs"
      by (auto intro: filter_cong)
    have cu: "cut_union ?g1 ovs = cut_union g ovs" by (simp add: cut_union_def filt)
    have cu2: "cut_union g (ov # ovs) = region og |\<union>| cut_union g ovs"
      using True by (simp add: cut_union_def regions_union_Cons fr)
    have "cut_loop g (ov # ovs) n = cut_loop ?g1 ovs (Suc n)"
      using True og by (simp add: cut_loop_Cons_sig del: cut_loop.simps)
    also have "\<dots> = (if filter (significant g) ovs = [] then ?g1
                       else assemble (region ?g1 |-| cut_union g ovs),
                       Suc n + length (filter (significant g) ovs))"
      using Cons.IH[OF rest, of ?g1 "Suc n"] by (simp add: filt cu)
    also have "\<dots> = (assemble (region g |-| cut_union g (ov # ovs)),
                       n + length (filter (significant g) (ov # ovs)))"
    proof (cases "filter (significant g) ovs = []")
      case True
      then have "cut_union g ovs = {||}" by (simp add: cut_union_def regions_union_Nil)
      then show ?thesis using True \<open>significant g ov\<close> by (simp add: cu2 difference_def)
    next
      case False
      have "region g |-| region og |-| cut_union g ovs = region g |-| (region og |\<union>| cut_union g ovs)"
        by blast
      then show ?thesis using False \<open>significant g ov\<close> by (simp add: cu2)
    qed
    finally show ?thesis using True by simp
  qed
qed

lemma regions_union_member: "c |\<in>| regions_union rs \<longleftrightarrow> (\<exists>r\<in>set rs. c |\<in>| r)"
  by (induction rs) (auto simp: regions_union_Nil regions_union_Cons)

lemma cut_union_set: "set ovs' = set ovs \<Longrightarrow> cut_union g ovs' = cut_union g ovs"
proof -
  assume s: "set ovs' = set ovs"
  have "c |\<in>| cut_union g ovs' \<longleftrightarrow> c |\<in>| cut_union g ovs" for c
    unfolding cut_union_def regions_union_member using s by auto
  then show ?thesis by auto
qed

lemma fdisjoint_sym: "fdisjoint a b = fdisjoint b a"
  by (auto simp: fdisjoint_def)

lemma fdisjoint_self: "fdisjoint a a \<longleftrightarrow> fregion a = {||}"
  by (auto simp: fdisjoint_def)

lemma overlays_disjoint_spread: "overlays_disjoint fs \<longleftrightarrow> spread fs"
proof (induction fs)
  case Nil show ?case by (simp add: spread_def)
next
  case (Cons x fs)
  have cnt: "2 \<le> count_list (x # fs) f \<longleftrightarrow> (if f = x then x \<in> set fs else 2 \<le> count_list fs f)" for f
    using count_list_0_iff[of fs x] by auto
  have "spread (x # fs) \<longleftrightarrow> (\<forall>h\<in>set fs. fdisjoint x h) \<and> spread fs"
  proof
    assume sp: "spread (x # fs)"
    have a: "fdisjoint x h" if "h \<in> set fs" for h
    proof (cases "h = x")
      case True
      with that sp show ?thesis unfolding spread_def cnt by (simp add: fdisjoint_self)
    next
      case False
      with that sp show ?thesis unfolding spread_def by simp
    qed
    have b: "spread fs" unfolding spread_def
    proof (intro conjI ballI impI)
      fix f h assume "f \<in> set fs" "h \<in> set fs" "f \<noteq> h"
      with sp show "fdisjoint f h" unfolding spread_def by simp
    next
      fix f assume f: "f \<in> set fs" and c: "2 \<le> count_list fs f"
      show "fregion f = {||}"
      proof (cases "f = x")
        case True
        with f sp show ?thesis unfolding spread_def cnt by simp
      next
        case False
        with f c sp show ?thesis unfolding spread_def cnt by simp
      qed
    qed
    from a b show "(\<forall>h\<in>set fs. fdisjoint x h) \<and> spread fs" by simp
  next
    assume h: "(\<forall>h\<in>set fs. fdisjoint x h) \<and> spread fs"
    show "spread (x # fs)" unfolding spread_def
    proof (intro conjI ballI impI)
      fix f k assume "f \<in> set (x # fs)" "k \<in> set (x # fs)" "f \<noteq> k"
      with h show "fdisjoint f k" unfolding spread_def using fdisjoint_sym by auto
    next
      fix f assume f: "f \<in> set (x # fs)" and c: "2 \<le> count_list (x # fs) f"
      show "fregion f = {||}"
      proof (cases "f = x")
        case True
        with c have "x \<in> set fs" unfolding cnt by simp
        with h have "fdisjoint x x" by blast
        with True show ?thesis by (simp add: fdisjoint_self)
      next
        case False
        with f c h show ?thesis unfolding spread_def cnt by simp
      qed
    qed
  qed
  then show ?case unfolding overlays_disjoint_Cons Cons.IH by simp
qed

lemma spread_mset: "mset fs' = mset fs \<Longrightarrow> spread fs' = spread fs"
proof -
  assume m: "mset fs' = mset fs"
  then have s: "set fs' = set fs" by (rule mset_eq_setD)
  have c: "count_list fs' f = count_list fs f" for f
  proof -
    have "count (mset fs') f = count (mset fs) f" using m by simp
    then show ?thesis by (simp only: count_mset)
  qed
  show ?thesis by (simp only: spread_def s c)
qed

lemma filter_length_mset: "mset fs' = mset fs \<Longrightarrow> length (filter P fs') = length (filter P fs)"
proof -
  assume "mset fs' = mset fs"
  then have "mset (filter P fs') = mset (filter P fs)" by (simp only: mset_filter)
  then have "size (mset (filter P fs')) = size (mset (filter P fs))" by (rule arg_cong)
  then show ?thesis by (simp only: size_mset)
qed

lemma filter_nil_set: "set fs' = set fs \<Longrightarrow> (filter P fs' = []) = (filter P fs = [])"
  by (simp add: filter_empty_conv)

lemma cut_loop_permute:
  assumes "overlays_disjoint ovs" "mset ovs' = mset ovs"
  shows "cut_loop g ovs' n = cut_loop g ovs n"
proof -
  have "spread ovs' = spread ovs" by (rule spread_mset[OF assms(2)])
  with assms(1) have d': "overlays_disjoint ovs'" by (simp only: overlays_disjoint_spread)
  have s: "set ovs' = set ovs" using assms(2) by (rule mset_eq_setD)
  have e1: "cut_union g ovs' = cut_union g ovs" by (rule cut_union_set[OF s])
  have e2: "length (filter (significant g) ovs') = length (filter (significant g) ovs)"
    by (rule filter_length_mset[OF assms(2)])
  have e3: "(filter (significant g) ovs' = []) = (filter (significant g) ovs = [])"
    by (rule filter_nil_set[OF s])
  have "cut_loop g ovs' n =
     (if filter (significant g) ovs' = [] then g else assemble (region g |-| cut_union g ovs'),
      n + length (filter (significant g) ovs'))"
    by (rule cut_loop_disjoint[OF d'])
  also have "\<dots> =
     (if filter (significant g) ovs = [] then g else assemble (region g |-| cut_union g ovs),
      n + length (filter (significant g) ovs))"
    by (simp only: e1 e2 e3)
  also have "\<dots> = cut_loop g ovs n"
    by (rule cut_loop_disjoint[OF assms(1), symmetric])
  finally show ?thesis .
qed

lemma cut_loop_disjoint_zero:
  assumes "overlays_disjoint ovs" "ov \<in> set ovs" "geom ov = Some og"
    "area (intersection g og) > cut_threshold"
  shows "area (intersection (fst (cut_loop g ovs n)) og) = 0"
proof -
  have sg: "significant g ov" using assms(3,4) by (simp add: significant_def)
  with assms(2) have ne: "filter (significant g) ovs \<noteq> []" by (auto simp: filter_empty_conv)
  have fr: "fregion ov = region og" using assms(3) by (simp add: fregion_def)
  have "region og \<in> set (map fregion (filter (significant g) ovs))"
    using assms(2) sg fr by force
  then have sub: "region og |\<subseteq>| cut_union g ovs"
    unfolding cut_union_def by (auto simp: regions_union_member)
  have "fst (cut_loop g ovs n) = assemble (region g |-| cut_union g ovs)"
    by (simp add: cut_loop_disjoint[OF assms(1)] ne)
  then have "region (fst (cut_loop g ovs n)) = region g |-| cut_union g ovs" by simp
  with sub have "region (fst (cut_loop g ovs n)) |\<inter>| region og = {||}" by auto
  then show ?thesis by (rule area_intersection_disjoint)
qed

lemma cut_targets_idem:
  "cut_targets ts ovs n = Inr (fs, m) \<Longrightarrow> cut_targets fs ovs k = Inr (fs, k)"
proof (induction ts arbitrary: n fs m k)
  case Nil then show ?case by simp
next
  case (Cons t ts)
  from Cons.prems obtain g where g: "geom t = Some g" by (cases "geom t") auto
  obtain g' n' where cl: "cut_loop g ovs n = (g', n')" by (cases "cut_loop g ovs n")
  from Cons.prems g cl obtain fs0 m0 where rest: "cut_targets ts ovs n' = Inr (fs0, m0)"
    by (cases "cut_targets ts ovs n'") auto
  have g': "g' = fst (cut_loop g ovs n)" using cl by simp
  show ?case
  proof (cases "is_empty g'")
    case True
    with Cons.prems g cl rest have "fs = fs0" by simp
    then show ?thesis using Cons.IH[OF rest] by simp
  next
    case False
    with Cons.prems g cl rest have fs: "fs = t\<lparr>geom := Some g'\<rparr> # fs0" by simp
    have "cut_loop g' ovs k = (g', k)" unfolding g' by (rule cut_loop_idem)
    moreover have "cut_targets fs0 ovs k = Inr (fs0, k)" by (rule Cons.IH[OF rest])
    ultimately show ?thesis using fs False by simp
  qed
qed

lemma possible_matches_bound: "j \<in> set (possible_matches use_sindex g geom_i) \<Longrightarrow> j < length (feats g)"
  by (auto simp: possible_matches_def sindex_intersection_def split: if_splits)

lemma check_pair_sound:
  assumes "ov \<in> set (check_pair g i feature_i geom_i j)"
  shows "\<exists>geom_j. i < j \<and> feature_i_id ov = i \<and> feature_j_id ov = j \<and>
           geom (feats g ! j) = Some geom_j \<and>
           intersects geom_i geom_j \<and> \<not> touches geom_i geom_j \<and>
           verify_threshold < area (intersection geom_i geom_j) \<and>
           overlap_geom ov = intersection geom_i geom_j"
proof (cases "geom (feats g ! j)")
  case None
  with assms show ?thesis by (simp add: check_pair_def Let_def split: if_splits)
next
  case (Some geom_j)
  with assms show ?thesis by (auto simp: check_pair_def Let_def split: if_splits)
qed

lemma scan_eval: "identify_overlaps True scan_frame = [scan_overlap]"
  by code_simp

lemma scan_eval2: "identify_overlaps False scan_frame = [scan_overlap]"
  by code_simp

lemma attr_props: "props f = props t \<Longrightarrow> attr f k = attr t k"
  by (simp add: attr_def)

lemma has_type_props: "props f = props t \<Longrightarrow> has_type s f = has_type s t"
  by (simp add: has_type_def attr_def)

lemma is_rocky_props: "props f = props t \<Longrightarrow> is_rocky f = is_rocky t"
  by (simp add: is_rocky_def attr_def)

lemma cut_targets_props:
  "cut_targets ts ovs n = Inr (fs, m) \<Longrightarrow> f \<in> set fs \<Longrightarrow> \<exists>t\<in>set ts. props f = props t"
proof (induction ts arbitrary: n fs m)
  case Nil then show ?case by simp
next
  case (Cons t ts)
  from Cons.prems(1) obtain g where g: "geom t = Some g" by (cases "geom t") auto
  obtain g' n' where cl: "cut_loop g ovs n = (g', n')" by (cases "cut_loop g ovs n")
  from Cons.prems(1) g cl obtain fs0 m0 where rest: "cut_targets ts ovs n' = Inr (fs0, m0)"
    by (cases "cut_targets ts ovs n'") auto
  from Cons.prems(1) g cl rest have "fs = fs0 \<or> fs = t\<lparr>geom := Some g'\<rparr> # fs0"
    by (auto split: if_splits)
  then show ?case
  proof
    assume "fs = fs0"
    with Cons.prems(2) Cons.IH[OF rest] show ?thesis by auto
  next
    assume "fs = t\<lparr>geom := Some g'\<rparr> # fs0"
    with Cons.prems(2) have "f = t\<lparr>geom := Some g'\<rparr> \<or> f \<in> set fs0" by simp
    then show ?thesis
    proof
      assume "f = t\<lparr>geom := Some g'\<rparr>" then show ?thesis by simp
    next
      assume "f \<in> set fs0" with Cons.IH[OF rest] show ?thesis by auto
    qed
  qed
qed

lemma cut_out_overlaps_props:
  assumes "cut_out_overlaps T ov = Inr (T', n)" "f \<in> set (feats T')"
  shows "\<exists>t\<in>set (feats T). props f = props t"
proof (cases "length (feats T) = 0 \<or> length (feats ov) = 0")
  case True
  with assms show ?thesis by (auto simp: cut_out_overlaps_def)
next
  case False
  with assms(1) obtain fs m where ct: "cut_targets (feats T) (feats ov) 0 = Inr (fs, m)"
    by (cases "cut_targets (feats T) (feats ov) 0") (auto simp: cut_out_overlaps_def)
  with assms False have "f \<in> set fs" by (auto simp: cut_out_overlaps_def split: if_splits)
  with ct show ?thesis by (rule cut_targets_props)
qed

lemma concat_nonempty_parts:
  "concat (map feats (filter (\<lambda>part. length (feats part) > 0) ps)) = concat (map feats ps)"
  by (induction ps) auto

lemma filter_none: "(\<And>x. x \<in> set xs \<Longrightarrow> \<not> P x) \<Longrightarrow> filter P xs = []"
  by (induction xs) auto

lemma filter_all: "(\<And>x. x \<in> set xs \<Longrightarrow> P x) \<Longrightarrow> filter P xs = xs"
  by (induction xs) auto

lemma combine_cut_frame:
  assumes "combine_cut g = Inr result"
  shows "filter non_target (feats result) =
         filter (has_type ''High Intertidal Coral Reef'') (feats g) @ filter is_other (feats g)"
proof -
  let ?high = "rows_where (has_type ''High Intertidal Coral Reef'') g"
  let ?plat = "rows_where (has_type ''Platform Coral Reef'') g"
  let ?frin = "rows_where (has_type ''Fringing Coral Reef'') g"
  let ?other = "rows_where is_other g"
  from assms obtain mp np where mp: "cut_out_overlaps ?plat ?high = Inr (mp, np)"
    by (cases "cut_out_overlaps ?plat ?high") (auto simp: combine_cut_def Let_def)
  from assms mp obtain mf nf where mf: "cut_out_overlaps ?frin ?high = Inr (mf, nf)"
    by (cases "cut_out_overlaps ?frin ?high") (auto simp: combine_cut_def Let_def)
  from assms mp mf have res: "feats result = feats mp @ feats mf @ feats ?high @ feats ?other"
    using concat_nonempty_parts[of "[mp, mf, ?high, ?other]"]
    by (auto simp: combine_cut_def Let_def concat_frames_def split: if_splits)
  have p1: "filter non_target (feats mp) = []"
  proof (rule filter_none)
    fix f assume "f \<in> set (feats mp)"
    from cut_out_overlaps_props[OF mp this] obtain t where
      "t \<in> set (feats ?plat)" "props f = props t" by blast
    then have "has_type ''Platform Coral Reef'' f"
      using has_type_props[of f t] by (simp add: rows_where_def)
    then show "\<not> non_target f" by (simp add: non_target_def)
  qed
  have p2: "filter non_target (feats mf) = []"
  proof (rule filter_none)
    fix f assume "f \<in> set (feats mf)"
    from cut_out_overlaps_props[OF mf this] obtain t where
      "t \<in> set (feats ?frin)" "props f = props t" by blast
    then have "has_type ''Fringing Coral Reef'' f"
      using has_type_props[of f t] by (simp add: rows_where_def)
    then show "\<not> non_target f" by (simp add: non_target_def)
  qed
  have p3: "filter non_target (feats ?high) = feats ?high"
    by (rule filter_all) (auto simp: rows_where_def non_target_def has_type_def)
  have p4: "filter non_target (feats ?other) = feats ?other"
    by (rule filter_all) (auto simp: rows_where_def non_target_def is_other_def)
  show ?thesis by (simp add: res p1 p2 p3 p4) (simp add: rows_where_def)
qed

lemma clip_row_props:
  "clip_row rocky row = Inr kept \<Longrightarrow> f \<in> set kept \<Longrightarrow> props f = props row"
  by (auto simp: clip_row_def Let_def split: option.splits if_splits sum.splits)

lemma clip_rows_props:
  "clip_rows rocky rows = Inr clipped \<Longrightarrow> f \<in> set clipped \<Longrightarrow> \<exists>r\<in>set rows. props f = props r"
proof (induction rows arbitrary: clipped)
  case Nil then show ?case by simp
next
  case (Cons row rows)
  from Cons.prems(1) obtain kept where k: "clip_row rocky row = Inr kept"
    by (cases "clip_row rocky row") auto
  from Cons.prems(1) k obtain others where o: "clip_rows rocky rows = Inr others"
    by (cases "clip_rows rocky rows") auto
  from Cons.prems(1) k o have "clipped = kept @ others" by simp
  with Cons.prems(2) have "f \<in> set kept \<or> f \<in> set others" by simp
  then show ?case
  proof
    assume "f \<in> set kept" with clip_row_props[OF k] show ?thesis by simp
  next
    assume "f \<in> set others" with Cons.IH[OF o] show ?thesis by auto
  qed
qed

lemma clip_rocks_from_reefs_frame:
  assumes "clip_rocks_from_reefs g = Inr result"
  shows "filter is_rocky (feats result) = filter is_rocky (feats g)"
proof -
  from assms obtain clipped where
    c: "clip_rows (filter is_rocky (feats g)) (filter (\<lambda>f. \<not> is_rocky f) (feats g)) = Inr clipped"
    and res: "feats result = filter is_rocky (feats g) @ clipped"
    by (auto simp: clip_rocks_from_reefs_def Let_def rows_where_def concat_frames_def
             split: if_splits sum.splits)
  have "filter is_rocky clipped = []"
  proof (rule filter_none)
    fix f assume "f \<in> set clipped"
    from clip_rows_props[OF c this] obtain r where "\<not> is_rocky r" "props f = props r" by auto
    then show "\<not> is_rocky f" using is_rocky_props[of f r] by simp
  qed
  then show ?thesis by (simp add: res)
qed

lemma review_frame_eval: "combine_cut review_frame = Inr clean_frame"
  by code_simp

lemma rocks_frame_eval: "clip_rocks_from_reefs rocks_frame = Inr clean_rocks_frame"
  by code_simp

lemma main02_writes:
  assumes "main02 use_sindex fs = Inr fs'"
  shows "\<exists>g result. map_of fs input_shapefile = Some (Shapefile g) \<and> combine_cut g = Inr result \<and>
           map_of fs' output_shapefile = Some (Shapefile result)"
proof -
  from assms obtain g where g: "map_of fs input_shapefile = Some (Shapefile g)"
    by (cases "map_of fs input_shapefile") (auto simp: main02_def split: entry.splits)
  from assms g obtain result where r: "combine_cut g = Inr result"
    by (cases "combine_cut g") (auto simp: main02_def split: if_splits)
  from assms g r have "map_of fs' output_shapefile = Some (Shapefile result)"
    by (auto simp: main02_def Let_def to_file_def split: if_splits)
  with g r show ?thesis by blast
qed

lemma main03_guard:
  "path_exists fs OUT_PATH \<Longrightarrow> main03 cross_walk fs = Inl (SystemExit exists_message)"
  by (simp add: main03_def)

lemma main02_overwrites_eval:
  "main02 True [(input_shapefile, Shapefile review_frame), (output_shapefile, Shapefile old_frame)] =
   Inr [(output_shapefile, Shapefile clean_frame), (input_shapefile, Shapefile review_frame)]"
  by code_simp

lemma neighbours_gvalues: "set (neighbours G node) \<subseteq> gvalues G"
proof (cases "map_of G node")
  case None
  then show ?thesis by (simp add: neighbours_def)
next
  case (Some vs)
  then have "(node, vs) \<in> set G" by (rule map_of_SomeD)
  then have "set vs \<subseteq> gvalues G" by (auto simp: gvalues_def)
  with Some show ?thesis by (simp add: neighbours_def)
qed

lemma dfs_sound:
  "(dfs d G node s = Inr s' \<longrightarrow> node \<notin> fst s \<longrightarrow>
      (\<exists>xs. snd s' = snd s @ node # xs \<and> fst s' = insert node (fst s) \<union> set xs \<and>
            distinct (node # xs) \<and> set xs \<inter> fst s = {} \<and> set xs \<subseteq> gvalues G))"
  "(dfs_loop d G nbs s = Inr s' \<longrightarrow> set nbs \<subseteq> gvalues G \<longrightarrow>
      (\<exists>xs. snd s' = snd s @ xs \<and> fst s' = fst s \<union> set xs \<and>
            distinct xs \<and> set xs \<inter> fst s = {} \<and> set xs \<subseteq> gvalues G))"
proof (induction d G node s and d G nbs s arbitrary: s' and s' rule: dfs_dfs_loop.induct)
  case (1 G node s)
  show ?case by simp
next
  case (2 depth G node visited component)
  show ?case
  proof (intro impI)
    assume r: "dfs (Suc depth) G node (visited, component) = Inr s'"
      and nv: "node \<notin> fst (visited, component)"
    from r have "dfs_loop depth G (neighbours G node) (insert node visited, component @ [node]) = Inr s'"
      by simp
    with 2[of s'] neighbours_gvalues[of G node] obtain xs where
      xs: "snd s' = (component @ [node]) @ xs" "fst s' = insert node visited \<union> set xs"
          "distinct xs" "set xs \<inter> insert node visited = {}" "set xs \<subseteq> gvalues G"
      by auto
    show "\<exists>xs. snd s' = snd (visited, component) @ node # xs \<and>
            fst s' = insert node (fst (visited, component)) \<union> set xs \<and>
            distinct (node # xs) \<and> set xs \<inter> fst (visited, component) = {} \<and> set xs \<subseteq> gvalues G"
      using xs by (intro exI[of _ xs]) auto
  qed
next
  case (3 depth G s)
  show ?case by auto
next
  case (4 depth G neighbor rest visited component)
  show ?case
  proof (intro impI)
    assume r: "dfs_loop depth G (neighbor # rest) (visited, component) = Inr s'"
      and sub: "set (neighbor # rest) \<subseteq> gvalues G"
    show "\<exists>xs. snd s' = snd (visited, component) @ xs \<and> fst s' = fst (visited, component) \<union> set xs \<and>
            distinct xs \<and> set xs \<inter> fst (visited, component) = {} \<and> set xs \<subseteq> gvalues G"
    proof (cases "neighbor \<in> visited")
      case True
      with r have "dfs_loop depth G rest (visited, component) = Inr s'" by simp
      with 4(3)[of s'] True sub show ?thesis by auto
    next
      case False
      with r obtain s1 where s1: "dfs depth G neighbor (visited, component) = Inr s1"
        and r2: "dfs_loop depth G rest s1 = Inr s'"
        by (cases "dfs depth G neighbor (visited, component)") auto
      from 4(1)[OF False, of s1] s1 False obtain xs where
        xs: "snd s1 = component @ neighbor # xs" "fst s1 = insert neighbor visited \<union> set xs"
            "distinct (neighbor # xs)" "set xs \<inter> visited = {}" "set xs \<subseteq> gvalues G"
        by auto
      obtain v1 c1 where sv: "s1 = (v1, c1)" by (cases s1)
      from 4(2)[OF False s1[unfolded sv], of s'] r2 sub sv obtain ys where
        ys: "snd s' = snd s1 @ ys" "fst s' = fst s1 \<union> set ys"
            "distinct ys" "set ys \<inter> fst s1 = {}" "set ys \<subseteq> gvalues G"
        by auto
      show ?thesis
        using xs ys sub False by (intro exI[of _ "neighbor # xs @ ys"]) auto
    qed
  qed
qed

lemma components_loop_sound:
  "components_loop d G keys V found = Inr comps \<Longrightarrow>
   \<exists>new. comps = found @ new \<and> (\<forall>c\<in>set new. c \<noteq> [] \<and> hd c \<in> set keys \<and> set (tl c) \<subseteq> gvalues G) \<and>
         distinct (concat new) \<and> set (concat new) \<inter> V = {}"
proof (induction keys arbitrary: V found)
  case Nil
  then show ?case by simp
next
  case (Cons node rest)
  show ?case
  proof (cases "node \<in> V")
    case True
    with Cons.prems have "components_loop d G rest V found = Inr comps" by simp
    from Cons.IH[OF this] show ?thesis by auto
  next
    case False
    with Cons.prems obtain V' c where s1: "dfs d G node (V, []) = Inr (V', c)"
      and r: "components_loop d G rest V' (found @ [c]) = Inr comps"
      by (cases "dfs d G node (V, [])") auto
    from dfs_sound(1)[of d G node "(V, [])" "(V', c)"] s1 False obtain xs where
      xs: "c = node # xs" "V' = insert node V \<union> set xs" "distinct (node # xs)"
          "set xs \<inter> V = {}" "set xs \<subseteq> gvalues G"
      by auto
    from Cons.IH[OF r] obtain new where
      new: "comps = (found @ [c]) @ new"
           "\<forall>c\<in>set new. c \<noteq> [] \<and> hd c \<in> set rest \<and> set (tl c) \<subseteq> gvalues G"
           "distinct (concat new)" "set (concat new) \<inter> V' = {}"
      by auto
    show ?thesis
      using xs new False by (intro exI[of _ "c # new"]) auto
  qed
qed

lemma find_connected_components_sound:
  assumes "find_connected_components d G = Inr comps"
  shows "distinct (concat comps)"
    and "c \<in> set comps \<Longrightarrow> c \<noteq> [] \<and> hd c \<in> set (map fst G) \<and> set (tl c) \<subseteq> gvalues G"
  using components_loop_sound[OF assms[unfolded find_connected_components_def]] by auto

lemma dfs_total:
  assumes "finite U"
  shows "(gvalues G \<subseteq> U \<longrightarrow> node \<in> U \<longrightarrow> node \<notin> fst s \<longrightarrow> card (U - fst s) \<le> d \<longrightarrow>
           (\<exists>s'. dfs d G node s = Inr s'))"
    "(gvalues G \<subseteq> U \<longrightarrow> set nbs \<subseteq> U \<longrightarrow> card (U - fst s) \<le> d \<longrightarrow>
           (\<exists>s'. dfs_loop d G nbs s = Inr s'))"
proof (induction d G node s and d G nbs s rule: dfs_dfs_loop.induct)
  case (1 G node s)
  show ?case
  proof (intro impI)
    assume "gvalues G \<subseteq> U" "node \<in> U" "node \<notin> fst s" "card (U - fst s) \<le> 0"
    then have "U - fst s = {}" using assms(1) by simp
    with \<open>node \<in> U\<close> \<open>node \<notin> fst s\<close> show "\<exists>s'. dfs 0 G node s = Inr s'" by blast
  qed
next
  case (2 depth G node visited component)
  show ?case
  proof (intro impI)
    assume gv: "gvalues G \<subseteq> U"
      and n: "node \<in> U" "node \<notin> fst (visited, component)"
      and c: "card (U - fst (visited, component)) \<le> Suc depth"
    have "U - insert node visited = (U - visited) - {node}" by auto
    moreover have "node \<in> U - visited" using n by simp
    ultimately have "card (U - insert node visited) = card (U - visited) - 1"
      using assms(1) by (simp add: card_Diff_singleton)
    with c have "card (U - fst (insert node visited, component @ [node])) \<le> depth" by simp
    moreover have "set (neighbours G node) \<subseteq> U" using neighbours_gvalues[of G node] gv by blast
    ultimately show "\<exists>s'. dfs (Suc depth) G node (visited, component) = Inr s'"
      using 2 gv by simp
  qed
next
  case (3 depth G s)
  show ?case by simp
next
  case (4 depth G neighbor rest visited component)
  show ?case
  proof (intro impI)
    assume gv: "gvalues G \<subseteq> U"
      and sub: "set (neighbor # rest) \<subseteq> U" and c: "card (U - fst (visited, component)) \<le> depth"
    show "\<exists>s'. dfs_loop depth G (neighbor # rest) (visited, component) = Inr s'"
    proof (cases "neighbor \<in> visited")
      case True
      with 4(3) sub c gv show ?thesis by simp
    next
      case False
      with 4(1) sub c gv obtain s1 where s1: "dfs depth G neighbor (visited, component) = Inr s1"
        by auto
      from dfs_sound(1)[of depth G neighbor "(visited, component)" s1] s1 False
      have "visited \<subseteq> fst s1" by auto
      then have "U - fst s1 \<subseteq> U - visited" by auto
      then have "card (U - fst s1) \<le> card (U - visited)" using assms(1) by (simp add: card_mono)
      with c have c1: "card (U - fst s1) \<le> depth" by simp
      obtain v1 c1' where sv: "s1 = (v1, c1')" by (cases s1)
      from 4(2)[OF False s1[unfolded sv]] sub c1 sv gv obtain s' where
        "dfs_loop depth G rest s1 = Inr s'" by auto
      with s1 False show ?thesis by simp
    qed
  qed
qed

lemma components_loop_total:
  assumes "finite U" "gvalues G \<subseteq> U" "set keys \<subseteq> U" "card U \<le> d"
  shows "\<exists>comps. components_loop d G keys V found = Inr comps"
  using assms(3)
proof (induction keys arbitrary: V found)
  case Nil
  show ?case by simp
next
  case (Cons node rest)
  show ?case
  proof (cases "node \<in> V")
    case True
    with Cons show ?thesis by simp
  next
    case False
    have "card (U - V) \<le> card U" using assms(1) by (simp add: card_mono)
    with assms(4) have "card (U - fst (V, [])) \<le> d" by simp
    with dfs_total(1)[OF assms(1), of G node "(V, [])" d] assms(2) Cons.prems False
    obtain s' where s': "dfs d G node (V, []) = Inr s'" by auto
    obtain V' c where "s' = (V', c)" by (cases s')
    with s' False Cons.IH[of V' "found @ [c]"] Cons.prems show ?thesis by simp
  qed
qed

lemma finite_gnodes: "finite (gnodes G)"
  by (auto simp: gnodes_def gvalues_def)

lemma find_connected_components_total:
  "card (gnodes G) \<le> d \<Longrightarrow> \<exists>comps. find_connected_components d G = Inr comps"
  unfolding find_connected_components_def
  by (rule components_loop_total[OF finite_gnodes, of G]) (auto simp: gnodes_def)

lemma add_edge_keys: "set (map fst (add_edge k v c)) = insert k (set (map fst c))"
proof -
  have "map fst (map (\<lambda>(k', vs). if k' = k then (k', if v \<in> set vs then vs else vs @ [v])
                            else (k', vs)) c) = map fst c"
    by (induction c) auto
  then have "set (map fst (map (\<lambda>(k', vs). if k' = k then (k', if v \<in> set vs then vs else vs @ [v])
                            else (k', vs)) c)) = set (map fst c)"
    by (rule arg_cong)
  then show ?thesis
  proof (cases "k \<in> set (map fst c)")
    case True
    assume e: "set (map fst (map (\<lambda>(k', vs). if k' = k then (k', if v \<in> set vs then vs else vs @ [v])
                            else (k', vs)) c)) = set (map fst c)"
    have "add_edge k v c = map (\<lambda>(k', vs). if k' = k then (k', if v \<in> set vs then vs else vs @ [v])
                            else (k', vs)) c" using True by (simp only: add_edge_def if_True)
    with e True show ?thesis by (simp only: insert_absorb)
  next
    case False
    then have "add_edge k v c = c @ [(k, [v])]" by (simp only: add_edge_def if_False)
    then show ?thesis by simp
  qed
qed

lemma add_edge_gvalues: "gvalues (add_edge k v c) \<subseteq> insert v (gvalues c)"
proof (cases "k \<in> set (map fst c)")
  case False
  then show ?thesis by (auto simp: add_edge_def gvalues_def)
next
  case True
  have "gvalues (map (\<lambda>(k', vs). if k' = k then (k', if v \<in> set vs then vs else vs @ [v])
                            else (k', vs)) c) \<subseteq> insert v (gvalues c)"
  proof (induction c)
    case Nil
    show ?case by (simp add: gvalues_def)
  next
    case (Cons a c)
    obtain k' vs where a: "a = (k', vs)" by (cases a)
    have "gvalues (x # xs) = set (snd x) \<union> gvalues xs" for x :: "nat \<times> nat list" and xs
      by (auto simp: gvalues_def)
    then show ?case using Cons a by auto
  qed
  with True show ?thesis by (simp add: add_edge_def)
qed

lemma add_edge_gnodes: "gnodes (add_edge k v c) \<subseteq> gnodes c \<union> {k, v}"
  using add_edge_keys[of k v c] add_edge_gvalues[of k v c] by (auto simp: gnodes_def)

lemma connect_fold_gnodes:
  "set ps \<subseteq> T \<times> T \<Longrightarrow>
   gnodes (fold (\<lambda>(idx1, idx2) c. if idx1 \<noteq> idx2 then add_edge idx2 idx1 (add_edge idx1 idx2 c) else c)
             ps conns) \<subseteq> gnodes conns \<union> T"
proof (induction ps arbitrary: conns)
  case Nil
  show ?case by simp
next
  case (Cons p ps)
  obtain a b where p: "p = (a, b)" by (cases p)
  from Cons.prems p have ab: "a \<in> T" "b \<in> T" and rest: "set ps \<subseteq> T \<times> T"
    by auto
  let ?c1 = "if a \<noteq> b then add_edge b a (add_edge a b conns) else conns"
  have "gnodes ?c1 \<subseteq> gnodes conns \<union> T"
    using add_edge_gnodes[of b a "add_edge a b conns"] add_edge_gnodes[of a b conns] ab by auto
  with Cons.IH[OF rest, of ?c1] show ?case by (auto simp: p)
qed

lemma connect_all_gnodes: "gnodes (connect_all t conns) \<subseteq> gnodes conns \<union> set t"
proof -
  have "set (List.product t t) \<subseteq> set t \<times> set t" by auto
  then have "gnodes (fold (\<lambda>(idx1, idx2) c. if idx1 \<noteq> idx2 then add_edge idx2 idx1 (add_edge idx1 idx2 c) else c)
             (List.product t t) conns) \<subseteq> gnodes conns \<union> set t"
    by (rule connect_fold_gnodes)
  then show ?thesis by (simp only: connect_all_def)
qed

lemma add_group_keys: "set (map fst (add_group k x g)) = insert k (set (map fst g))"
proof -
  have "map fst (map (\<lambda>(k', xs). if k' = k then (k', xs @ [x]) else (k', xs)) g) = map fst g"
    by (induction g) auto
  then have e: "set (map fst (map (\<lambda>(k', xs). if k' = k then (k', xs @ [x]) else (k', xs)) g)) =
      set (map fst g)"
    by (rule arg_cong)
  show ?thesis
  proof (cases "k \<in> set (map fst g)")
    case True
    have "add_group k x g = map (\<lambda>(k', xs). if k' = k then (k', xs @ [x]) else (k', xs)) g"
      using True by (simp only: add_group_def if_True)
    with e True show ?thesis by (simp only: insert_absorb)
  next
    case False
    then have "add_group k x g = g @ [(k, [x])]" by (simp only: add_group_def if_False)
    then show ?thesis by simp
  qed
qed

lemma tag_candidates_inv:
  assumes "tag_candidates rock g possibles touched (groups, conns) = (t', g', c')"
    and "set possibles \<subseteq> B"
    and "set touched \<subseteq> set (map fst groups)" "gnodes conns \<subseteq> set (map fst groups)"
      "set (map fst groups) \<subseteq> B"
  shows "gnodes c' \<subseteq> set (map fst g') \<and> set (map fst g') \<subseteq> B"
  using assms
proof (induction possibles arbitrary: touched groups conns)
  case Nil
  then show ?case by simp
next
  case (Cons nw_idx possibles)
  show ?case
  proof (cases "geom (rock ! nw_idx)")
    case None
    with Cons.prems(1) have "tag_candidates rock g possibles touched (groups, conns) = (t', g', c')"
      by simp
    from Cons.IH[OF this] Cons.prems show ?thesis by simp
  next
    case (Some rg)
    show ?thesis
    proof (cases "touches g rg \<or> intersects g rg")
      case False
      with Some Cons.prems(1) have "tag_candidates rock g possibles touched (groups, conns) = (t', g', c')"
        by simp
      from Cons.IH[OF this] Cons.prems show ?thesis by simp
    next
      case True
      let ?groups = "add_group nw_idx g groups"
      let ?touched = "touched @ [nw_idx]"
      let ?conns = "if length ?touched > 1 then connect_all ?touched conns else conns"
      have "tag_candidates rock g (nw_idx # possibles) touched (groups, conns) =
            tag_candidates rock g possibles ?touched (?groups, ?conns)"
        by (simp only: tag_candidates.simps Some option.case True if_True Let_def)
      with Cons.prems(1) have r: "tag_candidates rock g possibles ?touched (?groups, ?conns) = (t', g', c')"
        by (simp only:)
      have k: "set (map fst ?groups) = insert nw_idx (set (map fst groups))" by (rule add_group_keys)
      have a: "set ?touched \<subseteq> set (map fst ?groups)" using Cons.prems(3) k by auto
      have b: "gnodes ?conns \<subseteq> set (map fst ?groups)"
        using connect_all_gnodes[of ?touched conns] Cons.prems(4) a k by auto
      have c: "set (map fst ?groups) \<subseteq> B" using Cons.prems(2,5) k by auto
      from Cons.IH[OF r _ a b c] Cons.prems(2) show ?thesis by simp
    qed
  qed
qed

lemma sindex_intersection_bound: "set (sindex_intersection rock b) \<subseteq> {..<length (feats rock)}"
  by (auto simp: sindex_intersection_def)

lemma tag_aims_inv:
  assumes "tag_aims rock rows t = Inr t'"
    and "gnodes (nw_connections t) \<subseteq> set (map fst (nw_groups t))"
    and "set (map fst (nw_groups t)) \<subseteq> {..<length (feats rock)}"
  shows "gnodes (nw_connections t') \<subseteq> set (map fst (nw_groups t')) \<and>
         set (map fst (nw_groups t')) \<subseteq> {..<length (feats rock)}"
  using assms
proof (induction rows arbitrary: t)
  case Nil
  then show ?case by simp
next
  case (Cons r rows)
  obtain i row where r: "r = (i, row)" by (cases r)
  from Cons.prems(1) r obtain g where g: "geom row = Some g" by (cases "geom row") auto
  let ?poss = "if is_empty g then [] else sindex_intersection rock (bounds g)"
  obtain tn gr cn where tc: "tag_candidates (feats rock) g ?poss [] (nw_groups t, nw_connections t) = (tn, gr, cn)"
    by (cases "tag_candidates (feats rock) g ?poss [] (nw_groups t, nw_connections t)") auto
  let ?t1 = "\<lparr>touch_idxs = (if tn \<noteq> [] then touch_idxs t @ [i] else touch_idxs t),
              nw_groups = gr, nw_connections = cn\<rparr>"
  from Cons.prems(1) r g tc have rest: "tag_aims rock rows ?t1 = Inr t'" by (simp add: Let_def)
  have "set ?poss \<subseteq> {..<length (feats rock)}" using sindex_intersection_bound by auto
  from tag_candidates_inv[OF tc this _ Cons.prems(2,3)]
  have "gnodes cn \<subseteq> set (map fst gr) \<and> set (map fst gr) \<subseteq> {..<length (feats rock)}" by simp
  then show ?case using Cons.IH[OF rest] by simp
qed

lemma original_indices_distinct: "distinct (original_indices g)"
  by (simp add: original_indices_def)

lemma original_indices_bound: "i < length (original_indices g) \<Longrightarrow> original_indices g ! i < length (feats g)"
proof -
  assume "i < length (original_indices g)"
  then have "original_indices g ! i \<in> set (original_indices g)" by (rule nth_mem)
  then show ?thesis by (simp add: original_indices_def)
qed

lemma length_gdf_nw_rock: "length (feats (gdf_nw_rock g)) = length (original_indices g)"
  by (simp add: gdf_nw_rock_def)

lemma map_of_replace:
  "k \<noteq> k' \<Longrightarrow> map_of (map (\<lambda>(a, b). if a = k' then (a, v) else (a, b)) ps) k = map_of ps k"
  by (induction ps) auto

lemma map_of_snoc_other: "k \<noteq> k' \<Longrightarrow> map_of (ps @ [(k', v)]) k = map_of ps k"
  by (induction ps) auto

lemma attr_set_attr_other: "k \<noteq> k' \<Longrightarrow> attr (set_attr k' v f) k = attr f k"
proof -
  assume ne: "k \<noteq> k'"
  show ?thesis
  proof (cases "k' \<in> set (map fst (props f))")
    case True
    then have "props (set_attr k' v f) = map (\<lambda>(a, b). if a = k' then (a, v) else (a, b)) (props f)"
      by (simp add: set_attr_def)
    then show ?thesis using map_of_replace[OF ne, of v "props f"] by (simp only: attr_def)
  next
    case False
    then have "props (set_attr k' v f) = props f @ [(k', v)]" by (simp add: set_attr_def)
    then show ?thesis using map_of_snoc_other[OF ne, of "props f" v] by (simp only: attr_def)
  qed
qed

lemma geom_set_attr: "geom (set_attr k v f) = geom f"
  by (simp add: set_attr_def)

lemma same_attrs_refl: "same_attrs rows rows"
  by (simp add: same_attrs_def)

lemma same_attrs_update:
  assumes "same_attrs rows0 rows1"
  shows "same_attrs rows0 (rows1[p := set_attr ''debug_status'' st ((rows1 ! p)\<lparr>geom := Some g\<rparr>)])"
  unfolding same_attrs_def
proof (intro conjI allI impI)
  show "length (rows1[p := set_attr ''debug_status'' st ((rows1 ! p)\<lparr>geom := Some g\<rparr>)]) = length rows0"
    using assms by (simp add: same_attrs_def)
next
  fix q k assume q: "q < length rows0" and k: "k \<noteq> ''debug_status''"
  have len: "length rows1 = length rows0" using assms by (simp add: same_attrs_def)
  have old: "attr (rows1 ! q) k = attr (rows0 ! q) k" using assms q k by (simp add: same_attrs_def)
  show "attr (rows1[p := set_attr ''debug_status'' st ((rows1 ! p)\<lparr>geom := Some g\<rparr>)] ! q) k =
        attr (rows0 ! q) k"
  proof (cases "q = p")
    case True
    have "attr (set_attr ''debug_status'' st ((rows1 ! p)\<lparr>geom := Some g\<rparr>)) k =
          attr ((rows1 ! p)\<lparr>geom := Some g\<rparr>) k"
      using k by (rule attr_set_attr_other)
    also have "\<dots> = attr (rows1 ! p) k" by (simp add: attr_def)
    finally show ?thesis using True q len old by simp
  next
    case False
    then show ?thesis using old by simp
  qed
qed

lemma dissolve_isolated_same:
  "same_attrs rows0 rows1 \<Longrightarrow> same_attrs rows0 (dissolve_isolated rock idx groups nw_idx rows1)"
  unfolding dissolve_isolated_def Let_def by (rule same_attrs_update)

lemma fold_isolated_same:
  "same_attrs rows0 rows1 \<Longrightarrow>
   same_attrs rows0 (fold (dissolve_isolated rock idx groups) ks rows1)"
  by (induction ks arbitrary: rows1) (simp_all add: dissolve_isolated_same)

lemma dissolve_component_fst:
  "fst (dissolve_component rock idx groups c (rows1, rem)) =
     (if c = [] then rows1
      else rows1[idx ! hd c :=
             set_attr ''debug_status''
               (Str (''primary_with_'' @ show_nat (length c - 1) @ ''_others''))
               ((rows1 ! (idx ! hd c))\<lparr>geom := Some (unary_union (reef_geoms rock groups c))\<rparr>)])"
  by (simp add: dissolve_component_def Let_def)

lemma dissolve_component_snd:
  "snd (dissolve_component rock idx groups c (rows1, rem)) = rem @ map (\<lambda>n. idx ! n) (tl c)"
  by (simp add: dissolve_component_def Let_def)

lemma dissolve_component_same:
  "same_attrs rows0 rows1 \<Longrightarrow>
   same_attrs rows0 (fst (dissolve_component rock idx groups c (rows1, rem)))"
  unfolding dissolve_component_fst by (simp add: same_attrs_update)

lemma fold_component_same:
  "same_attrs rows0 (fst acc) \<Longrightarrow>
   same_attrs rows0 (fst (fold (dissolve_component rock idx groups) comps acc))"
proof (induction comps arbitrary: acc)
  case Nil
  then show ?case by simp
next
  case (Cons c comps)
  obtain rows1 rem where acc: "acc = (rows1, rem)" by (cases acc)
  have "same_attrs rows0 (fst (dissolve_component rock idx groups c acc))"
    using Cons.prems dissolve_component_same[of rows0 rows1] by (simp add: acc)
  from Cons.IH[OF this] show ?case by simp
qed

lemma fold_component_removed:
  "snd (fold (dissolve_component rock idx groups) comps acc) =
   snd acc @ concat (map (\<lambda>c. map (\<lambda>n. idx ! n) (tl c)) comps)"
proof (induction comps arbitrary: acc)
  case Nil
  show ?case by simp
next
  case (Cons c comps)
  obtain rows1 rem where acc: "acc = (rows1, rem)" by (cases acc)
  have "snd (dissolve_component rock idx groups c acc) = snd acc @ map (\<lambda>n. idx ! n) (tl c)"
    by (simp add: acc dissolve_component_snd)
  then show ?case using Cons.IH[of "dissolve_component rock idx groups c acc"] by simp
qed

lemma fold_component_untouched:
  "q \<notin> (\<lambda>c. idx ! hd c) ` set comps \<Longrightarrow>
   fst (fold (dissolve_component rock idx groups) comps acc) ! q = fst acc ! q"
proof (induction comps arbitrary: acc)
  case Nil
  show ?case by simp
next
  case (Cons c comps)
  obtain rows1 rem where acc: "acc = (rows1, rem)" by (cases acc)
  from Cons.prems have q: "q \<noteq> idx ! hd c" and rest: "q \<notin> (\<lambda>c. idx ! hd c) ` set comps" by auto
  have "fst (dissolve_component rock idx groups c acc) ! q = fst acc ! q"
    using q by (simp add: acc dissolve_component_fst)
  with Cons.IH[OF rest, of "dissolve_component rock idx groups c acc"] show ?case by simp
qed

lemma fold_component_length:
  "length (fst (fold (dissolve_component rock idx groups) comps acc)) = length (fst acc)"
  using fold_component_same[of "fst acc" acc rock idx groups comps] same_attrs_refl
  by (simp add: same_attrs_def)

lemma fold_component_primary:
  assumes "c \<in> set comps" "distinct (map (\<lambda>c. idx ! hd c) comps)"
    "\<forall>c\<in>set comps. c \<noteq> [] \<and> idx ! hd c < length (fst acc)"
  shows "geom (fst (fold (dissolve_component rock idx groups) comps acc) ! (idx ! hd c)) =
         Some (unary_union (reef_geoms rock groups c))"
  using assms
proof (induction comps arbitrary: acc)
  case Nil
  then show ?case by simp
next
  case (Cons c0 comps)
  obtain rows1 rem where acc: "acc = (rows1, rem)" by (cases acc)
  let ?acc1 = "dissolve_component rock idx groups c0 acc"
  have len1: "length (fst ?acc1) = length (fst acc)"
    using Cons.prems(3) by (simp add: acc dissolve_component_fst)
  show ?case
  proof (cases "c = c0")
    case True
    from Cons.prems(2) True have nt: "idx ! hd c \<notin> (\<lambda>c. idx ! hd c) ` set comps" by auto
    have ne: "c0 \<noteq> []" and inr: "idx ! hd c0 < length rows1" using Cons.prems(3) acc by auto
    have "geom (fst ?acc1 ! (idx ! hd c0)) = Some (unary_union (reef_geoms rock groups c0))"
      using ne inr by (simp add: acc dissolve_component_fst geom_set_attr)
    with fold_component_untouched[OF nt, of rock groups ?acc1] True show ?thesis by simp
  next
    case False
    with Cons.prems(1) have mem: "c \<in> set comps" by simp
    from Cons.prems(2) have d: "distinct (map (\<lambda>c. idx ! hd c) comps)" by simp
    from Cons.prems(3) len1 have b: "\<forall>c\<in>set comps. c \<noteq> [] \<and> idx ! hd c < length (fst ?acc1)" by simp
    from Cons.IH[OF mem d b] show ?thesis by simp
  qed
qed

lemma dissolve_parts:
  assumes "dissolve depth gdf_nw gdf_aims = Inr d"
  shows "\<exists>rows1.
     tag_aims (gdf_nw_rock (track_nw gdf_nw))
        (zip [0..<length (feats (prepare_aims (track_nw gdf_nw) gdf_aims))]
             (feats (prepare_aims (track_nw gdf_nw) gdf_aims)))
        \<lparr>touch_idxs = [], nw_groups = [], nw_connections = []\<rparr> = Inr (tags d) \<and>
     find_connected_components depth (nw_connections (tags d)) = Inr (connected_components d) \<and>
     same_attrs (feats (track_nw gdf_nw)) rows1 \<and>
     fold (dissolve_component (gdf_nw_rock (track_nw gdf_nw)) (original_indices (track_nw gdf_nw))
             (nw_groups (tags d))) (connected_components d) (rows1, []) =
       (merged_rows d, nw_features_to_remove d)"
proof -
  let ?tr = "track_nw gdf_nw"
  let ?aims = "prepare_aims ?tr gdf_aims"
  let ?rock = "gdf_nw_rock ?tr"
  let ?idx = "original_indices ?tr"
  let ?t0 = "\<lparr>touch_idxs = [], nw_groups = [], nw_connections = []\<rparr>"
  from assms have col: "''Feat_L3'' \<in> set (columns ?tr)"
    by (auto simp: dissolve_def Let_def split: if_splits)
  from assms col obtain t where t: "tag_aims ?rock (zip [0..<length (feats ?aims)] (feats ?aims)) ?t0 = Inr t"
    by (cases "tag_aims ?rock (zip [0..<length (feats ?aims)] (feats ?aims)) ?t0")
       (auto simp: dissolve_def Let_def)
  from assms col t obtain comps where comps: "find_connected_components depth (nw_connections t) = Inr comps"
    by (cases "find_connected_components depth (nw_connections t)") (auto simp: dissolve_def Let_def)
  let ?iso = "filter (\<lambda>k. k \<notin> set (concat comps)) (map fst (nw_groups t))"
  let ?rows1 = "fold (dissolve_isolated ?rock ?idx (nw_groups t)) ?iso (feats ?tr)"
  obtain rows2 rem where f: "fold (dissolve_component ?rock ?idx (nw_groups t)) comps (?rows1, []) = (rows2, rem)"
    by (cases "fold (dissolve_component ?rock ?idx (nw_groups t)) comps (?rows1, [])")
  from assms col t comps f have d: "d = \<lparr>merged_rows = rows2, nw_features_to_remove = rem,
        connected_components = comps, tags = t\<rparr>"
    by (simp add: dissolve_def Let_def)
  have s: "same_attrs (feats ?tr) ?rows1" by (rule fold_isolated_same) (rule same_attrs_refl)
  show ?thesis using t comps s f d by (intro exI[of _ ?rows1]) simp
qed

lemma heads_distinct:
  "distinct (concat comps) \<Longrightarrow> \<forall>c\<in>set comps. c \<noteq> [] \<Longrightarrow> distinct (map hd comps)"
proof (induction comps)
  case Nil
  show ?case by simp
next
  case (Cons c comps)
  from Cons.prems have ne: "c \<noteq> []" by simp
  then have hc: "hd c \<in> set c" by simp
  have "hd c \<noteq> hd c'" if "c' \<in> set comps" for c'
  proof -
    from that Cons.prems(2) have "c' \<noteq> []" by simp
    then have "hd c' \<in> set c'" by simp
    with that have "hd c' \<in> set (concat comps)" by auto
    moreover from Cons.prems(1) have "set c \<inter> set (concat comps) = {}" by simp
    ultimately show ?thesis using hc by auto
  qed
  then have "hd c \<notin> set (map hd comps)" by auto
  moreover have "distinct (map hd comps)" using Cons by simp
  ultimately show ?case by simp
qed

lemma head_not_in_tail:
  assumes "distinct (concat comps)" "c \<in> set comps" "c' \<in> set comps" "c \<noteq> []" "n \<in> set (tl c')"
  shows "hd c \<noteq> n"
proof (cases "c = c'")
  case True
  from assms(1,2) have "distinct c" by (auto simp: distinct_concat_iff)
  moreover have "c = hd c # tl c" using assms(4) by simp
  ultimately have "hd c \<notin> set (tl c)" by (metis distinct.simps(2))
  with True assms(5) show ?thesis by auto
next
  case False
  with assms(1,2,3) have "set c \<inter> set c' = {}" by (auto simp: distinct_concat_iff)
  moreover have "hd c \<in> set c" using assms(4) by simp
  moreover have "n \<in> set c'" using assms(5) by (metis list.set_sel(2) tl_Nil empty_iff list.set(1))
  ultimately show ?thesis by auto
qed

lemma set_hd_tl: "c \<noteq> [] \<Longrightarrow> set c = insert (hd c) (set (tl c))"
  by (cases c) simp_all

lemma dissolve_nodes:
  assumes "dissolve depth gdf_nw gdf_aims = Inr d"
  shows "distinct (concat (connected_components d))"
    and "c \<in> set (connected_components d) \<Longrightarrow>
         c \<noteq> [] \<and> hd c \<in> set (map fst (nw_connections (tags d))) \<and>
         (\<forall>n\<in>set c. n < length (original_indices (track_nw gdf_nw)))"
    and "nw_groups (tags d) = [] \<Longrightarrow> connected_components d = []"
proof -
  let ?tr = "track_nw gdf_nw"
  let ?rock = "gdf_nw_rock ?tr"
  let ?idx = "original_indices ?tr"
  let ?G = "nw_connections (tags d)"
  from dissolve_parts[OF assms] obtain rows1 where
    tag: "tag_aims ?rock
        (zip [0..<length (feats (prepare_aims ?tr gdf_aims))] (feats (prepare_aims ?tr gdf_aims)))
        \<lparr>touch_idxs = [], nw_groups = [], nw_connections = []\<rparr> = Inr (tags d)"
    and fcc: "find_connected_components depth ?G = Inr (connected_components d)"
    by blast
  have "gnodes ?G \<subseteq> set (map fst (nw_groups (tags d))) \<and>
        set (map fst (nw_groups (tags d))) \<subseteq> {..<length (feats ?rock)}"
    by (rule tag_aims_inv[OF tag]) (simp_all add: gnodes_def gvalues_def)
  then have inv1: "gnodes ?G \<subseteq> set (map fst (nw_groups (tags d)))"
    and inv2: "set (map fst (nw_groups (tags d))) \<subseteq> {..<length ?idx}"
    by (simp_all add: length_gdf_nw_rock)
  show "distinct (concat (connected_components d))"
    by (rule find_connected_components_sound(1)[OF fcc])
  show "c \<noteq> [] \<and> hd c \<in> set (map fst ?G) \<and> (\<forall>n\<in>set c. n < length ?idx)"
    if c: "c \<in> set (connected_components d)"
  proof -
    from find_connected_components_sound(2)[OF fcc c]
    have ne: "c \<noteq> []" and h: "hd c \<in> set (map fst ?G)" and t: "set (tl c) \<subseteq> gvalues ?G"
      by simp_all
    from h t have "insert (hd c) (set (tl c)) \<subseteq> gnodes ?G" by (auto simp: gnodes_def)
    with set_hd_tl[OF ne] have "set c \<subseteq> gnodes ?G" by simp
    with inv1 inv2 have "set c \<subseteq> {..<length ?idx}" by blast
    with ne h show ?thesis by auto
  qed
  show "connected_components d = []" if g: "nw_groups (tags d) = []"
  proof (rule ccontr)
    assume "connected_components d \<noteq> []"
    then obtain c where c: "c \<in> set (connected_components d)" by (cases "connected_components d") auto
    from find_connected_components_sound(2)[OF fcc c] have "hd c \<in> gnodes ?G"
      by (simp add: gnodes_def)
    with inv1 g show False by simp
  qed
qed

lemma dissolve_rows:
  assumes "dissolve depth gdf_nw gdf_aims = Inr d"
  shows "same_attrs (feats (track_nw gdf_nw)) (merged_rows d)"
    and "nw_features_to_remove d =
         concat (map (\<lambda>c. map (\<lambda>n. original_indices (track_nw gdf_nw) ! n) (tl c))
                   (connected_components d))"
    and "c \<in> set (connected_components d) \<Longrightarrow>
         geom (merged_rows d ! (original_indices (track_nw gdf_nw) ! hd c)) =
         Some (unary_union (reef_geoms (gdf_nw_rock (track_nw gdf_nw)) (nw_groups (tags d)) c))"
proof -
  let ?tr = "track_nw gdf_nw"
  let ?rock = "gdf_nw_rock ?tr"
  let ?idx = "original_indices ?tr"
  let ?comps = "connected_components d"
  from dissolve_parts[OF assms] obtain rows1 where
    same1: "same_attrs (feats ?tr) rows1"
    and f: "fold (dissolve_component ?rock ?idx (nw_groups (tags d))) ?comps (rows1, []) =
            (merged_rows d, nw_features_to_remove d)"
    by blast
  from f have m: "merged_rows d = fst (fold (dissolve_component ?rock ?idx (nw_groups (tags d))) ?comps (rows1, []))"
    and r: "nw_features_to_remove d = snd (fold (dissolve_component ?rock ?idx (nw_groups (tags d))) ?comps (rows1, []))"
    by simp_all
  show "same_attrs (feats ?tr) (merged_rows d)"
    unfolding m by (rule fold_component_same) (simp add: same1)
  show "nw_features_to_remove d = concat (map (\<lambda>c. map (\<lambda>n. ?idx ! n) (tl c)) ?comps)"
    unfolding r by (simp add: fold_component_removed)
  show "geom (merged_rows d ! (?idx ! hd c)) =
        Some (unary_union (reef_geoms ?rock (nw_groups (tags d)) c))"
    if c: "c \<in> set ?comps"
  proof -
    have len1: "length rows1 = length (feats ?tr)" using same1 by (simp add: same_attrs_def)
    have heads: "distinct (map hd ?comps)"
      by (rule heads_distinct[OF dissolve_nodes(1)[OF assms]]) (simp add: dissolve_nodes(2)[OF assms])
    have "inj_on (\<lambda>n. ?idx ! n) (set (map hd ?comps))"
    proof (rule inj_on_nth[OF original_indices_distinct])
      show "\<forall>i\<in>set (map hd ?comps). i < length ?idx"
        using dissolve_nodes(2)[OF assms] by (auto simp: set_hd_tl)
    qed
    with heads have "distinct (map (\<lambda>n. ?idx ! n) (map hd ?comps))"
      by (subst distinct_map) (rule conjI)
    then have dist: "distinct (map (\<lambda>c. ?idx ! hd c) ?comps)"
      by (simp only: map_map comp_def)
    have bound: "\<forall>c\<in>set ?comps. c \<noteq> [] \<and> ?idx ! hd c < length (fst (rows1, []::nat list))"
    proof
      fix c' assume c': "c' \<in> set ?comps"
      from dissolve_nodes(2)[OF assms c'] have ne: "c' \<noteq> []" and "hd c' < length ?idx"
        by (auto simp: set_hd_tl)
      then have "?idx ! hd c' < length (feats ?tr)" by (simp add: original_indices_bound)
      with ne len1 show "c' \<noteq> [] \<and> ?idx ! hd c' < length (fst (rows1, []::nat list))" by simp
    qed
    show ?thesis unfolding m by (rule fold_component_primary[OF c dist bound])
  qed
qed

lemma primary_not_removed:
  assumes "dissolve depth gdf_nw gdf_aims = Inr d" "c \<in> set (connected_components d)"
  shows "original_indices (track_nw gdf_nw) ! hd c \<notin> set (nw_features_to_remove d)"
proof
  let ?idx = "original_indices (track_nw gdf_nw)"
  assume "?idx ! hd c \<in> set (nw_features_to_remove d)"
  then obtain c' n where c': "c' \<in> set (connected_components d)" and n: "n \<in> set (tl c')"
    and e: "?idx ! hd c = ?idx ! n"
    unfolding dissolve_rows(2)[OF assms(1)] by auto
  from dissolve_nodes(2)[OF assms] have ne: "c \<noteq> []" and hb: "hd c < length ?idx"
    by (auto simp: set_hd_tl)
  from n have "n \<in> set c'" by (metis list.set_sel(2) tl_Nil empty_iff list.set(1))
  with dissolve_nodes(2)[OF assms(1) c'] have nb: "n < length ?idx" by simp
  from e hb nb have "hd c = n" using original_indices_distinct[of "track_nw gdf_nw"]
    by (simp add: nth_eq_iff_index_eq)
  with head_not_in_tail[OF dissolve_nodes(1)[OF assms(1)] assms(2) c' ne n] show False by simp
qed

lemma surviving_rows_closed:
  assumes "dissolve depth gdf_nw gdf_aims = Inr d"
  shows "surviving_rows d =
         map (\<lambda>i. merged_rows d ! i)
           (filter (\<lambda>i. i \<notin> set (nw_features_to_remove d)) [0..<length (merged_rows d)])"
proof (cases "nw_groups (tags d) \<noteq> [] \<and> nw_features_to_remove d \<noteq> []")
  case True
  then show ?thesis by (simp add: surviving_rows_def)
next
  case False
  have "nw_features_to_remove d = []"
  proof (cases "nw_groups (tags d) = []")
    case True
    from dissolve_nodes(3)[OF assms True] show ?thesis
      unfolding dissolve_rows(2)[OF assms] by simp
  next
    case False
    with \<open>\<not> (nw_groups (tags d) \<noteq> [] \<and> nw_features_to_remove d \<noteq> [])\<close> show ?thesis by simp
  qed
  then show ?thesis by (simp add: surviving_rows_def map_nth)
qed

lemma rock_row_at:
  "n < length (original_indices g) \<Longrightarrow>
   feats (gdf_nw_rock g) ! n = feats g ! (original_indices g ! n)"
  by (simp add: gdf_nw_rock_def)

lemma rock_row_type:
  assumes "n < length (original_indices g)"
  shows "attr (feats g ! (original_indices g ! n)) ''Feat_L3'' = Str ''Rocky Reef''"
proof -
  from assms have "original_indices g ! n \<in> set (original_indices g)" by (rule nth_mem)
  then show ?thesis by (simp add: original_indices_def)
qed

lemma surviving_member:
  assumes "dissolve depth gdf_nw gdf_aims = Inr d"
    and "p < length (feats (track_nw gdf_nw))" "p \<notin> set (nw_features_to_remove d)"
  shows "merged_rows d ! p \<in> set (surviving_rows d)"
proof -
  have "length (merged_rows d) = length (feats (track_nw gdf_nw))"
    using dissolve_rows(1)[OF assms(1)] by (simp add: same_attrs_def)
  with assms(2,3) have "p \<in> set (filter (\<lambda>i. i \<notin> set (nw_features_to_remove d))
                                    [0..<length (merged_rows d)])"
    by simp
  then have "merged_rows d ! p \<in> (\<lambda>i. merged_rows d ! i) `
      set (filter (\<lambda>i. i \<notin> set (nw_features_to_remove d)) [0..<length (merged_rows d)])"
    by (rule imageI)
  then show ?thesis unfolding surviving_rows_closed[OF assms(1)] by (simp only: set_map)
qed


lemma dissolve_merge:
  assumes "dissolve depth gdf_nw gdf_aims = Inr d"
  shows "\<exists>gdf_result report aims_new.
           merge_rocky_reefs depth gdf_nw gdf_aims = Inr (gdf_result, report) \<and>
           feats gdf_result = surviving_rows d @ aims_new"
  using assms by (simp add: merge_rocky_reefs_def Let_def concat_frames_def)

lemma reefs_dissolved_eval: "dissolve 5 three_reefs two_links = Inr reefs_dissolved"
  by code_simp



















lemma region_make_valid [simp]: "region (make_valid g) = region g"
  by (simp add: make_valid_def)



lemma is_empty_make_valid [simp]: "is_empty (make_valid g) \<longleftrightarrow> region g = {||}"
  by (simp add: make_valid_def)

lemma is_empty_difference [simp]: "is_empty (difference g m) \<longleftrightarrow> region g |\<subseteq>| region m"
  by (auto simp: difference_def)






lemma has_extent_filter: "\<forall>f\<in>set (filter has_extent fs). has_extent f"
  by simp
















text \<open>
  Claim C5. Running \<open>cut_out_overlaps\<close> again on a target set it has already resolved,
  against the same overlay set, returns that set as it is: every feature is kept with the
  geometry and attributes it had, and no further overlap is counted.
\<close>

theorem cut_out_overlaps_idempotent:
  assumes "cut_out_overlaps target_gdf overlay_gdf = Inr (resolved, n)"
  shows "cut_out_overlaps resolved overlay_gdf = Inr (resolved, 0)"
proof (cases "length (feats target_gdf) = 0 \<or> length (feats overlay_gdf) = 0")
  case True
  with assms have "resolved = target_gdf" by (simp add: cut_out_overlaps_def)
  with True show ?thesis by (simp add: cut_out_overlaps_def)
next
  case False
  with assms obtain fs m where ct: "cut_targets (feats target_gdf) (feats overlay_gdf) 0 = Inr (fs, m)"
    by (cases "cut_targets (feats target_gdf) (feats overlay_gdf) 0") (auto simp: cut_out_overlaps_def)
  show ?thesis
  proof (cases "fs = []")
    case True
    with assms False ct have "resolved = \<lparr>columns = [], feats = []\<rparr>"
      by (simp add: cut_out_overlaps_def)
    then show ?thesis by (simp add: cut_out_overlaps_def)
  next
    case ne: False
    with assms False ct have r: "resolved = \<lparr>columns = columns target_gdf, feats = fs\<rparr>"
      by (simp add: cut_out_overlaps_def)
    have "cut_targets fs (feats overlay_gdf) 0 = Inr (fs, 0)" by (rule cut_targets_idem[OF ct])
    then show ?thesis using r ne False by (simp add: cut_out_overlaps_def)
  qed
qed

text \<open>
  Claim C1, as the code has it. After the pass over the overlay features, the area a
  target still shares with any overlay feature is at most the cut threshold; when no two
  overlay features cover a common cell and the pair overlapped by more than the threshold,
  nothing of the overlay is left in the target.
\<close>

theorem cut_loop_residual_bound:
  assumes "ov \<in> set ovs" and "geom ov = Some og"
  shows "area (intersection (fst (cut_loop g ovs n)) og) \<le> cut_threshold \<and>
         (overlays_disjoint ovs \<and> cut_threshold < area (intersection g og) \<longrightarrow>
          area (intersection (fst (cut_loop g ovs n)) og) = 0)"
  using cut_loop_residual[OF assms] cut_loop_disjoint_zero[OF _ assms] by blast

text \<open>
  The bound and the exact removal at a concrete input with two separate overlay features.
\<close>

theorem cut_loop_residual_bound_witness:
  "intertidal_west \<in> set [intertidal_west, intertidal_east] \<and>
   overlays_disjoint [intertidal_west, intertidal_east] \<and>
   cut_threshold < area (intersection platform_strip (the (geom intertidal_west))) \<and>
   area (intersection (fst (cut_loop platform_strip [intertidal_west, intertidal_east] 0))
          (the (geom intertidal_west))) = 0"
proof -
  have m: "intertidal_west \<in> set [intertidal_west, intertidal_east]" by simp
  have g: "geom intertidal_west = Some (the (geom intertidal_west))" by simp
  have d: "overlays_disjoint [intertidal_west, intertidal_east]" by code_simp
  have a: "cut_threshold < area (intersection platform_strip (the (geom intertidal_west)))"
    by code_simp
  from cut_loop_residual_bound[OF m g, of platform_strip 0] d a
  have "area (intersection (fst (cut_loop platform_strip [intertidal_west, intertidal_east] 0))
          (the (geom intertidal_west))) = 0" by blast
  with m d a show ?thesis by blast
qed

text \<open>
  Claim C1 as stated fails when overlay features overlap one another: the threshold is
  tested on the geometry already cut, so the middle reef, which covered 0.00054 of the
  target, meets only 0.00027 of what the western reef left, is not cut, and that 0.00027
  stays in the resolved target.
\<close>

theorem cut_loop_residual_counterexample:
  "cut_threshold < area (intersection platform_strip (the (geom intertidal_mid))) \<and>
   area (intersection (fst (cut_loop platform_strip [intertidal_west, intertidal_mid] 0))
          (the (geom intertidal_mid))) = 27 / 100000"
  by code_simp

text \<open>
  Claim C3, as the code has it. When no two overlay features cover a common cell, every
  ordering of the overlay features gives the same resolved geometry (and the same overlap
  count).
\<close>

theorem cut_loop_order_independent:
  assumes "overlays_disjoint ovs" and "mset ovs' = mset ovs"
  shows "cut_loop g ovs' n = cut_loop g ovs n"
  using assms by (rule cut_loop_permute)

text \<open>
  Two separate overlay features, applied in both orders.
\<close>

theorem cut_loop_order_independent_witness:
  "overlays_disjoint [intertidal_west, intertidal_east] \<and>
   mset [intertidal_east, intertidal_west] = mset [intertidal_west, intertidal_east] \<and>
   cut_loop platform_strip [intertidal_east, intertidal_west] 0 =
   cut_loop platform_strip [intertidal_west, intertidal_east] 0"
proof -
  have d: "overlays_disjoint [intertidal_west, intertidal_east]" by code_simp
  have p: "mset [intertidal_east, intertidal_west] = mset [intertidal_west, intertidal_east]"
    by simp
  from cut_loop_order_independent[OF d p] d p show ?thesis by blast
qed

text \<open>
  Claim C3 as stated fails for overlay features that overlap one another: the two orders
  of the western and the middle reef leave different parts of the platform.
\<close>

theorem cut_loop_order_counterexample:
  "mset [intertidal_mid, intertidal_west] = mset [intertidal_west, intertidal_mid] \<and>
   region (fst (cut_loop platform_strip [intertidal_west, intertidal_mid] 0)) =
     {|(6,0),(7,0),(8,0),(9,0),(10,0),(11,0)|} \<and>
   region (fst (cut_loop platform_strip [intertidal_mid, intertidal_west] 0)) =
     {|(0,0),(1,0),(2,0),(9,0),(10,0),(11,0)|}"
proof -
  have p: "mset [intertidal_mid, intertidal_west] = mset [intertidal_west, intertidal_mid]"
    by simp
  have a: "region (fst (cut_loop platform_strip [intertidal_west, intertidal_mid] 0)) =
     {|(6,0),(7,0),(8,0),(9,0),(10,0),(11,0)|}" by code_simp
  have b: "region (fst (cut_loop platform_strip [intertidal_mid, intertidal_west] 0)) =
     {|(0,0),(1,0),(2,0),(9,0),(10,0),(11,0)|}" by code_simp
  from p a b show ?thesis by blast
qed

text \<open>
  The idempotence at a concrete input: a platform reef of twelve cells loses the six cells
  under an intertidal reef in the first pass, and the second pass leaves the result alone.
\<close>

theorem cut_out_overlaps_idempotent_witness:
  "cut_out_overlaps \<lparr>columns = [''RB_Type_L3''], feats = [platform_feature]\<rparr>
       \<lparr>columns = [''RB_Type_L3''], feats = [intertidal_west]\<rparr> =
     Inr (\<lparr>columns = [''RB_Type_L3''],
           feats = [\<lparr>props = [(''RB_Type_L3'', Str ''Platform Coral Reef'')],
              geom = Some (Polygon (Poly {|(6,0),(7,0),(8,0),(9,0),(10,0),(11,0)|} True))\<rparr>]\<rparr>, 1) \<and>
   cut_out_overlaps \<lparr>columns = [''RB_Type_L3''],
           feats = [\<lparr>props = [(''RB_Type_L3'', Str ''Platform Coral Reef'')],
              geom = Some (Polygon (Poly {|(6,0),(7,0),(8,0),(9,0),(10,0),(11,0)|} True))\<rparr>]\<rparr>
       \<lparr>columns = [''RB_Type_L3''], feats = [intertidal_west]\<rparr> =
     Inr (\<lparr>columns = [''RB_Type_L3''],
           feats = [\<lparr>props = [(''RB_Type_L3'', Str ''Platform Coral Reef'')],
              geom = Some (Polygon (Poly {|(6,0),(7,0),(8,0),(9,0),(10,0),(11,0)|} True))\<rparr>]\<rparr>, 0)"
proof -
  have h: "cut_out_overlaps \<lparr>columns = [''RB_Type_L3''], feats = [platform_feature]\<rparr>
       \<lparr>columns = [''RB_Type_L3''], feats = [intertidal_west]\<rparr> =
     Inr (\<lparr>columns = [''RB_Type_L3''],
           feats = [\<lparr>props = [(''RB_Type_L3'', Str ''Platform Coral Reef'')],
              geom = Some (Polygon (Poly {|(6,0),(7,0),(8,0),(9,0),(10,0),(11,0)|} True))\<rparr>]\<rparr>, 1)"
    by code_simp
  from cut_out_overlaps_idempotent[OF h] h show ?thesis by blast
qed

text \<open>
  Claim C8. Every pair the verification scan reports is a pair of rows i < j of the
  scanned frame whose geometries do not merely touch: they share interior, the area of
  their intersection exceeds the verification threshold 0.0001, and that threshold is
  below the cut threshold 0.0005. This holds with and without the spatial index.
\<close>

theorem identify_overlaps_genuine:
  assumes "ov \<in> set (identify_overlaps use_sindex g)"
  shows "\<exists>geom_i geom_j.
           feature_i_id ov < feature_j_id ov \<and> feature_j_id ov < length (feats g) \<and>
           geom (feats g ! feature_i_id ov) = Some geom_i \<and>
           geom (feats g ! feature_j_id ov) = Some geom_j \<and>
           \<not> touches geom_i geom_j \<and>
           region geom_i |\<inter>| region geom_j \<noteq> {||} \<and>
           verify_threshold < area (intersection geom_i geom_j) \<and>
           overlap_geom ov = intersection geom_i geom_j \<and>
           verify_threshold < cut_threshold"
proof -
  from assms obtain i where i: "i < length (feats g)"
    and mem: "ov \<in> set (let feature_i = feats g ! i in
         case geom feature_i of
           None \<Rightarrow> []
         | Some geom_i \<Rightarrow>
             if is_empty geom_i then []
             else concat (map (check_pair g i feature_i geom_i)
                            (possible_matches use_sindex g geom_i)))"
    unfolding identify_overlaps_def by auto
  from mem obtain geom_i where gi: "geom (feats g ! i) = Some geom_i"
    by (cases "geom (feats g ! i)") (simp_all add: Let_def)
  with mem have mem2: "ov \<in> set (concat (map (check_pair g i (feats g ! i) geom_i)
                            (possible_matches use_sindex g geom_i)))"
    by (simp add: Let_def split: if_splits)
  from mem2 obtain j where j: "j \<in> set (possible_matches use_sindex g geom_i)"
    and cp: "ov \<in> set (check_pair g i (feats g ! i) geom_i j)" by auto
  from check_pair_sound[OF cp] obtain geom_j where
    p: "i < j" "feature_i_id ov = i" "feature_j_id ov = j" "geom (feats g ! j) = Some geom_j"
       "intersects geom_i geom_j" "\<not> touches geom_i geom_j"
       "verify_threshold < area (intersection geom_i geom_j)"
       "overlap_geom ov = intersection geom_i geom_j" by blast
  have ne: "region geom_i |\<inter>| region geom_j \<noteq> {||}" using p(5,6) by (simp add: touches_def)
  have lt: "verify_threshold < cut_threshold" by (simp add: verify_threshold_def cut_threshold_def)
  have jb: "j < length (feats g)" using j by (rule possible_matches_bound)
  show ?thesis using p gi ne lt jb by auto
qed

text \<open>
  A frame of four rows. The first two share two cells (0.00018) and are reported. The
  third only touches the second, and the fourth shares a single cell (0.00009, below the
  threshold) with the second: neither pair is reported.
\<close>

theorem identify_overlaps_genuine_witness:
  "identify_overlaps True scan_frame = [scan_overlap] \<and>
   scan_overlap \<in> set (identify_overlaps True scan_frame) \<and>
   (\<exists>geom_i geom_j.
      feature_i_id scan_overlap < feature_j_id scan_overlap \<and>
      feature_j_id scan_overlap < length (feats scan_frame) \<and>
      geom (feats scan_frame ! feature_i_id scan_overlap) = Some geom_i \<and>
      geom (feats scan_frame ! feature_j_id scan_overlap) = Some geom_j \<and>
      \<not> touches geom_i geom_j \<and>
      region geom_i |\<inter>| region geom_j \<noteq> {||} \<and>
      verify_threshold < area (intersection geom_i geom_j) \<and>
      overlap_geom scan_overlap = intersection geom_i geom_j \<and>
      verify_threshold < cut_threshold)"
proof -
  have h: "scan_overlap \<in> set (identify_overlaps True scan_frame)"
    by (simp add: scan_eval)
  from h identify_overlaps_genuine[OF h] have "scan_overlap \<in> set (identify_overlaps True scan_frame) \<and>
   (\<exists>geom_i geom_j.
      feature_i_id scan_overlap < feature_j_id scan_overlap \<and>
      feature_j_id scan_overlap < length (feats scan_frame) \<and>
      geom (feats scan_frame ! feature_i_id scan_overlap) = Some geom_i \<and>
      geom (feats scan_frame ! feature_j_id scan_overlap) = Some geom_j \<and>
      \<not> touches geom_i geom_j \<and>
      region geom_i |\<inter>| region geom_j \<noteq> {||} \<and>
      verify_threshold < area (intersection geom_i geom_j) \<and>
      overlap_geom scan_overlap = intersection geom_i geom_j \<and>
      verify_threshold < cut_threshold)" by (rule conjI)
  with scan_eval show ?thesis by (rule conjI)
qed

text \<open>
  Claim C9. In stage 02 the rows of the combined frame that are not platform or fringing
  reefs are exactly the intertidal reefs and the other rows of the loaded frame, each with
  the geometry and attributes it was loaded with. In stage 05 the rocky reefs of the
  written frame are exactly the rocky reefs of the loaded frame, unchanged.
\<close>

theorem priority_cut_frame:
  "(combine_cut g = Inr result \<longrightarrow>
      filter non_target (feats result) =
      filter (has_type ''High Intertidal Coral Reef'') (feats g) @ filter is_other (feats g)) \<and>
   (clip_rocks_from_reefs g' = Inr result' \<longrightarrow>
      filter is_rocky (feats result') = filter is_rocky (feats g'))"
  using combine_cut_frame clip_rocks_from_reefs_frame by blast

text \<open>
  Both stages at concrete inputs: the cut changes the platform reef and the coral reef
  only.
\<close>

theorem priority_cut_frame_witness:
  "combine_cut review_frame = Inr clean_frame \<and>
   clip_rocks_from_reefs rocks_frame = Inr clean_rocks_frame \<and>
   filter non_target (feats clean_frame) =
     filter (has_type ''High Intertidal Coral Reef'') (feats review_frame) @
     filter is_other (feats review_frame) \<and>
   filter is_rocky (feats clean_rocks_frame) = filter is_rocky (feats rocks_frame)"
  using priority_cut_frame[of review_frame clean_frame rocks_frame clean_rocks_frame]
    review_frame_eval rocks_frame_eval by blast

text \<open>
  Claim C7, as the code has it. Stage 03 stops with a fatal error, before it reads or
  writes anything, when its output file exists. Stage 02 has no such check: whenever it
  completes, its output path holds the frame computed from the input, whatever the path
  held before.
\<close>

theorem output_conflict_policy:
  "(path_exists fs OUT_PATH \<longrightarrow> main03 cross_walk fs = Inl (SystemExit exists_message)) \<and>
   (main02 use_sindex fs2 = Inr fs2' \<longrightarrow>
      (\<exists>g result. map_of fs2 input_shapefile = Some (Shapefile g) \<and>
         combine_cut g = Inr result \<and>
         map_of fs2' output_shapefile = Some (Shapefile result)))"
  using main03_guard main02_writes by blast

text \<open>
  Stage 03 over an existing output, and stage 02 over an existing output.
\<close>

theorem output_conflict_policy_witness:
  "path_exists [(OUT_PATH, Shapefile old_frame), (IN_PATH, Shapefile clean_frame)] OUT_PATH \<and>
   main03 Inr [(OUT_PATH, Shapefile old_frame), (IN_PATH, Shapefile clean_frame)] =
     Inl (SystemExit exists_message) \<and>
   main02 True [(input_shapefile, Shapefile review_frame), (output_shapefile, Shapefile old_frame)] =
     Inr [(output_shapefile, Shapefile clean_frame), (input_shapefile, Shapefile review_frame)] \<and>
   (\<exists>g result. map_of [(input_shapefile, Shapefile review_frame),
                          (output_shapefile, Shapefile old_frame)] input_shapefile =
        Some (Shapefile g) \<and>
      combine_cut g = Inr result \<and>
      map_of [(output_shapefile, Shapefile clean_frame), (input_shapefile, Shapefile review_frame)]
        output_shapefile = Some (Shapefile result))"
proof -
  have e: "path_exists [(OUT_PATH, Shapefile old_frame), (IN_PATH, Shapefile clean_frame)] OUT_PATH"
    by (simp add: path_exists_def)
  note t = output_conflict_policy[of
      "[(OUT_PATH, Shapefile old_frame), (IN_PATH, Shapefile clean_frame)]" Inr True
      "[(input_shapefile, Shapefile review_frame), (output_shapefile, Shapefile old_frame)]"
      "[(output_shapefile, Shapefile clean_frame), (input_shapefile, Shapefile review_frame)]"]
  from t e main02_overwrites_eval show ?thesis by blast
qed

text \<open>
  Claim C7 as stated fails at stage 02: with a shapefile already at the output path the
  stage does not stop; it completes and the path holds the new frame in place of the old.
\<close>

theorem output_conflict_counterexample:
  "path_exists [(input_shapefile, Shapefile review_frame), (output_shapefile, Shapefile old_frame)]
     output_shapefile \<and>
   main02 False [(input_shapefile, Shapefile review_frame), (output_shapefile, Shapefile old_frame)] =
   Inr [(output_shapefile, Shapefile clean_frame), (input_shapefile, Shapefile review_frame)]"
  by code_simp

text \<open>
  Claim C2. For every connected component the merger finds, the row it keeps is the row of
  the first rocky reef of the component as \<open>find_connected_components\<close> lists it
  (\<open>component[0]\<close>, the reef the traversal of that component started from): the row stays
  at its position, is not marked for removal, keeps every attribute it was loaded with
  except the tracking column \<open>debug_status\<close>, so also its identifier, receives the union
  of the geometries of the whole component, and is among the rows that go to the output.
  Every other rocky reef of the component is marked for removal, and the rows that go to
  the output are the rows at the positions that are not marked. The reef kept need not be
  the first of the component by the order of the input.
\<close>

theorem merger_keeps_component_head:
  assumes "dissolve depth gdf_nw gdf_aims = Inr d" and "c \<in> set (connected_components d)"
  shows "c \<noteq> [] \<and>
     hd c < length (original_indices (track_nw gdf_nw)) \<and>
     original_indices (track_nw gdf_nw) ! hd c < length (feats (track_nw gdf_nw)) \<and>
     original_indices (track_nw gdf_nw) ! hd c \<notin> set (nw_features_to_remove d) \<and>
     (\<forall>k. k \<noteq> ''debug_status'' \<longrightarrow>
        attr (merged_rows d ! (original_indices (track_nw gdf_nw) ! hd c)) k =
        attr (feats (track_nw gdf_nw) ! (original_indices (track_nw gdf_nw) ! hd c)) k) \<and>
     geom (merged_rows d ! (original_indices (track_nw gdf_nw) ! hd c)) =
       Some (unary_union (reef_geoms (gdf_nw_rock (track_nw gdf_nw)) (nw_groups (tags d)) c)) \<and>
     merged_rows d ! (original_indices (track_nw gdf_nw) ! hd c) \<in> set (surviving_rows d) \<and>
     (\<forall>n\<in>set (tl c). original_indices (track_nw gdf_nw) ! n \<in> set (nw_features_to_remove d)) \<and>
     surviving_rows d =
       map (\<lambda>i. merged_rows d ! i)
         (filter (\<lambda>i. i \<notin> set (nw_features_to_remove d)) [0..<length (merged_rows d)]) \<and>
     (\<exists>gdf_result report aims_new.
        merge_rocky_reefs depth gdf_nw gdf_aims = Inr (gdf_result, report) \<and>
        feats gdf_result = surviving_rows d @ aims_new)"
proof -
  let ?tr = "track_nw gdf_nw"
  let ?idx = "original_indices ?tr"
  let ?p = "?idx ! hd c"
  from dissolve_nodes(2)[OF assms] have ne: "c \<noteq> []" and nodes: "\<forall>n\<in>set c. n < length ?idx"
    by simp_all
  from ne nodes have hb: "hd c < length ?idx" by simp
  then have pb: "?p < length (feats ?tr)" by (rule original_indices_bound)
  have nr: "?p \<notin> set (nw_features_to_remove d)" by (rule primary_not_removed[OF assms])
  have at: "\<forall>k. k \<noteq> ''debug_status'' \<longrightarrow> attr (merged_rows d ! ?p) k = attr (feats ?tr ! ?p) k"
    using dissolve_rows(1)[OF assms(1)] pb by (simp add: same_attrs_def)
  have ge: "geom (merged_rows d ! ?p) =
      Some (unary_union (reef_geoms (gdf_nw_rock ?tr) (nw_groups (tags d)) c))"
    by (rule dissolve_rows(3)[OF assms])
  have su: "merged_rows d ! ?p \<in> set (surviving_rows d)"
    by (rule surviving_member[OF assms(1) pb nr])
  have ot: "\<forall>n\<in>set (tl c). ?idx ! n \<in> set (nw_features_to_remove d)"
    unfolding dissolve_rows(2)[OF assms(1)] using assms(2) by auto
  note cl = surviving_rows_closed[OF assms(1)]
  note mr = dissolve_merge[OF assms(1)]
  from ne hb pb nr at ge su ot cl mr show ?thesis by (intro conjI)
qed

text \<open>
  Three rocky reefs in a row, linked by two AIMS polygons, the one between the second and
  the third reef first: the component is listed from the second reef, whose row is kept.
\<close>

theorem merger_keeps_component_head_witness:
  "dissolve 5 three_reefs two_links = Inr reefs_dissolved \<and>
   [1, 2, 0] \<in> set (connected_components reefs_dissolved) \<and>
   original_indices (track_nw three_reefs) ! hd [1, 2, 0] \<notin> set (nw_features_to_remove reefs_dissolved) \<and>
   geom (merged_rows reefs_dissolved ! (original_indices (track_nw three_reefs) ! hd [1, 2, 0])) =
     Some (unary_union (reef_geoms (gdf_nw_rock (track_nw three_reefs))
                          (nw_groups (tags reefs_dissolved)) [1, 2, 0])) \<and>
   merged_rows reefs_dissolved ! (original_indices (track_nw three_reefs) ! hd [1, 2, 0])
     \<in> set (surviving_rows reefs_dissolved)"
proof -
  have e: "dissolve 5 three_reefs two_links = Inr reefs_dissolved" by (rule reefs_dissolved_eval)
  have m: "[1, 2, 0] \<in> set (connected_components reefs_dissolved)" by simp
  from merger_keeps_component_head[OF e m] e m show ?thesis by blast
qed

text \<open>
  On the same input the first rocky reef of the input, \<open>NW_0\<close>, belongs to the component,
  and the output keeps the row of \<open>NW_1\<close>; \<open>NW_0\<close> and \<open>NW_2\<close> go to the report. The
  first AIMS polygon reaches \<open>NW_1\<close> and \<open>NW_2\<close> only, so the first key of
  \<open>nw_connections\<close>, where the traversal starts, is one of these two in whatever order
  the spatial index returns them and the neighbour sets are walked.
\<close>

theorem merger_survivor_counterexample:
  "map_sum id connected_components (dissolve 5 three_reefs two_links) = Inr [[1, 2, 0]] \<and>
   original_indices (track_nw three_reefs) = [0, 1, 2] \<and>
   attr (feats three_reefs ! 0) ''DebugID'' = Str ''NW_0'' \<and>
   merge_rocky_reefs 5 three_reefs two_links =
     Inr (reefs_merged, [rock_row ''NW_0'' ''original'' {|(0, 0)|},
                         rock_row ''NW_2'' ''original'' {|(4, 0)|}]) \<and>
   length (feats reefs_merged) = 1 \<and>
   attr (feats reefs_merged ! 0) ''DebugID'' = Str ''NW_1''"
  by code_simp








end
